theory Spec2Isabelle
  imports Complex_Main "HOL-Library.Product_Lexorder"
begin

section \<open>Strings\<close>

text \<open>
  A Python \<open>str\<close> is modelled as a \<open>string\<close> whose characters are the code points
  0..255 (Latin-1).  On that range \<open>str.isspace\<close> holds for exactly the twelve code
  points below, and \<open>str.lower\<close> adds 32 to A..Z and to 192..222 except 215.
\<close>

definition isspace :: "char \<Rightarrow> bool" where
  "isspace c = ((of_char c :: nat) \<in> {9, 10, 11, 12, 13, 28, 29, 30, 31, 32, 133, 160})"

definition lower_char :: "char \<Rightarrow> char" where
  "lower_char c =
     (let n = (of_char c :: nat)
      in if (65 \<le> n \<and> n \<le> 90) \<or> (192 \<le> n \<and> n \<le> 222 \<and> n \<noteq> 215)
         then char_of (n + 32) else c)"

definition lower :: "string \<Rightarrow> string" where
  "lower s = map lower_char s"

definition strip :: "string \<Rightarrow> string" where
  "strip s = rev (dropWhile isspace (rev (dropWhile isspace s)))"

text \<open>\<open>s.replace(" ", "")\<close>: every space character is removed.\<close>

definition remove_spaces :: "string \<Rightarrow> string" where
  "remove_spaces s = filter (\<lambda>c. c \<noteq> CHR '' '') s"

text \<open>\<open>needle in hay\<close> for strings: \<open>needle\<close> occurs as a contiguous substring.\<close>

fun starts_with :: "string \<Rightarrow> string \<Rightarrow> bool" where
  "starts_with [] hay = True"
| "starts_with (n # ns) [] = False"
| "starts_with (n # ns) (h # hs) = (n = h \<and> starts_with ns hs)"

fun contains :: "string \<Rightarrow> string \<Rightarrow> bool" where
  "contains needle [] = (needle = [])"
| "contains needle (h # hs) = (starts_with needle (h # hs) \<or> contains needle hs)"

text \<open>\<open>x or d\<close> for an optional string: \<open>None\<close> and the empty string are falsy.\<close>

fun or_else :: "string option \<Rightarrow> string \<Rightarrow> string" where
  "or_else None d = d"
| "or_else (Some s) d = (if s = [] then d else s)"

section \<open>The similarity ratio of \<open>difflib.SequenceMatcher\<close>\<close>

text \<open>
  \<open>sim\<close> calls \<open>difflib.SequenceMatcher(None, a, b).ratio()\<close> of the Python standard
  library.  The definitions of this section follow \<open>difflib.py\<close> (CPython 3.11) for
  \<open>isjunk = None\<close> and \<open>autojunk = True\<close>, the arguments \<open>sim\<close> passes.

  \<open>__chain_b\<close> builds \<open>b2j\<close>, which maps each element of \<open>b\<close> to the increasing list
  of its positions, and then deletes the popular elements: when \<open>len(b) >= 200\<close>, those
  with more than \<open>len(b) // 100 + 1\<close> positions.  \<open>b2j.get(elt, [])\<close> is \<open>b2j b elt\<close>.
  The junk set is empty because \<open>isjunk\<close> is \<open>None\<close>.
\<close>

definition b2j :: "string \<Rightarrow> char \<Rightarrow> nat list" where
  "b2j b elt =
     (let idxs = filter (\<lambda>j. b ! j = elt) [0..<length b]
      in if 200 \<le> length b \<and> length b div 100 + 1 < length idxs then [] else idxs)"

definition isbjunk :: "char \<Rightarrow> bool" where
  "isbjunk elt = False"

text \<open>
  \<open>j2len.get(j-1, 0)\<close>.  Positions are natural numbers, so the key \<open>-1\<close> asked for at
  \<open>j = 0\<close> is written out: it is never present.
\<close>

definition j2lenget :: "(nat \<rightharpoonup> nat) \<Rightarrow> nat \<Rightarrow> nat" where
  "j2lenget j2len j =
     (if j = 0 then 0 else case j2len (j - 1) of None \<Rightarrow> 0 | Some v \<Rightarrow> v)"

text \<open>
  The inner loop of \<open>find_longest_match\<close> over the positions \<open>j\<close> of \<open>a[i]\<close> in \<open>b\<close>;
  \<open>continue\<close> below \<open>blo\<close>, \<open>break\<close> from \<open>bhi\<close> on.  The state is
  \<open>(newj2len, besti, bestj, bestsize)\<close>.  Python's \<open>i-k+1\<close> is written \<open>i + 1 - k\<close>;
  lemma \<open>inner_loop_inv\<close> below shows that \<open>k \<le> i + 1 - alo\<close> and \<open>k \<le> j + 1 - blo\<close>,
  so nothing is truncated.
\<close>

fun inner_loop ::
  "nat \<Rightarrow> nat \<Rightarrow> nat \<Rightarrow> (nat \<rightharpoonup> nat) \<Rightarrow> nat list \<Rightarrow>
   (nat \<rightharpoonup> nat) \<times> nat \<times> nat \<times> nat \<Rightarrow> (nat \<rightharpoonup> nat) \<times> nat \<times> nat \<times> nat" where
  "inner_loop i blo bhi j2len [] st = st"
| "inner_loop i blo bhi j2len (j # js) (newj2len, besti, bestj, bestsize) =
     (if j < blo then inner_loop i blo bhi j2len js (newj2len, besti, bestj, bestsize)
      else if bhi \<le> j then (newj2len, besti, bestj, bestsize)
      else let k = j2lenget j2len j + 1
           in if bestsize < k
              then inner_loop i blo bhi j2len js (newj2len(j \<mapsto> k), i + 1 - k, j + 1 - k, k)
              else inner_loop i blo bhi j2len js (newj2len(j \<mapsto> k), besti, bestj, bestsize))"

text \<open>The outer loop \<open>for i in range(alo, ahi)\<close>; the state is \<open>(j2len, besti, bestj, bestsize)\<close>.\<close>

fun outer_loop ::
  "string \<Rightarrow> string \<Rightarrow> nat \<Rightarrow> nat \<Rightarrow> nat list \<Rightarrow>
   (nat \<rightharpoonup> nat) \<times> nat \<times> nat \<times> nat \<Rightarrow> (nat \<rightharpoonup> nat) \<times> nat \<times> nat \<times> nat" where
  "outer_loop a b blo bhi [] st = st"
| "outer_loop a b blo bhi (i # is) (j2len, besti, bestj, bestsize) =
     outer_loop a b blo bhi is
       (inner_loop i blo bhi j2len (b2j b (a ! i)) (Map.empty, besti, bestj, bestsize))"

text \<open>
  The four \<open>while\<close> loops that extend the best match: backwards and forwards over
  elements that are not junk (\<open>junk = False\<close>), then over junk elements (\<open>junk = True\<close>).
\<close>

function extend_back ::
  "string \<Rightarrow> string \<Rightarrow> nat \<Rightarrow> nat \<Rightarrow> bool \<Rightarrow> nat \<times> nat \<times> nat \<Rightarrow> nat \<times> nat \<times> nat" where
  "extend_back a b alo blo junk (besti, bestj, bestsize) =
     (if alo < besti \<and> blo < bestj \<and> isbjunk (b ! (bestj - 1)) = junk \<and>
         a ! (besti - 1) = b ! (bestj - 1)
      then extend_back a b alo blo junk (besti - 1, bestj - 1, bestsize + 1)
      else (besti, bestj, bestsize))"
  by pat_completeness auto
termination
  by (relation "measure (\<lambda>(a, b, alo, blo, junk, besti, bestj, bestsize). besti)") auto

function extend_fwd ::
  "string \<Rightarrow> string \<Rightarrow> nat \<Rightarrow> nat \<Rightarrow> bool \<Rightarrow> nat \<times> nat \<times> nat \<Rightarrow> nat \<times> nat \<times> nat" where
  "extend_fwd a b ahi bhi junk (besti, bestj, bestsize) =
     (if besti + bestsize < ahi \<and> bestj + bestsize < bhi \<and>
         isbjunk (b ! (bestj + bestsize)) = junk \<and>
         a ! (besti + bestsize) = b ! (bestj + bestsize)
      then extend_fwd a b ahi bhi junk (besti, bestj, bestsize + 1)
      else (besti, bestj, bestsize))"
  by pat_completeness auto
termination
  by (relation "measure (\<lambda>(a, b, ahi, bhi, junk, besti, bestj, bestsize). ahi - (besti + bestsize))")
     auto

declare extend_back.simps [simp del] extend_fwd.simps [simp del]

definition find_longest_match ::
  "string \<Rightarrow> string \<Rightarrow> nat \<Rightarrow> nat \<Rightarrow> nat \<Rightarrow> nat \<Rightarrow> nat \<times> nat \<times> nat" where
  "find_longest_match a b alo ahi blo bhi =
     (case outer_loop a b blo bhi [alo..<ahi] (Map.empty, alo, blo, 0) of
        (j2len, best) \<Rightarrow>
          extend_fwd a b ahi bhi True
            (extend_back a b alo blo True
              (extend_fwd a b ahi bhi False
                (extend_back a b alo blo False best))))"

text \<open>
  The bounds that \<open>find_longest_match\<close> keeps: the entries of \<open>j2len\<close> after \<open>n\<close> rows
  are at most \<open>n\<close> and fit between \<open>blo\<close> and their position, and the best block lies
  inside the window.  They justify the subtractions above and the termination of the
  block queue below.
\<close>

definition j2len_ok :: "nat \<Rightarrow> nat \<Rightarrow> nat \<Rightarrow> (nat \<rightharpoonup> nat) \<Rightarrow> bool" where
  "j2len_ok blo bhi n j2len = (\<forall>j v. j2len j = Some v \<longrightarrow> v \<le> n \<and> v + blo \<le> j + 1 \<and> j < bhi)"

definition best_ok :: "nat \<Rightarrow> nat \<Rightarrow> nat \<Rightarrow> nat \<Rightarrow> nat \<times> nat \<times> nat \<Rightarrow> bool" where
  "best_ok alo ahi blo bhi best =
     (case best of (besti, bestj, bestsize) \<Rightarrow>
        alo \<le> besti \<and> blo \<le> bestj \<and>
        (if bestsize = 0 then besti = alo \<and> bestj = blo
         else besti + bestsize \<le> ahi \<and> bestj + bestsize \<le> bhi))"

lemma j2lenget_le:
  assumes "j2len_ok blo bhi n j2len" and "blo \<le> j"
  shows "j2lenget j2len j \<le> n \<and> j2lenget j2len j + blo \<le> j"
  using assms by (auto simp: j2len_ok_def j2lenget_def split: option.splits) fastforce+

lemma inner_loop_inv:
  assumes "j2len_ok blo bhi (i - alo) j2len" and "alo \<le> i" and "i < ahi"
    and "j2len_ok blo bhi (i + 1 - alo) new" and "best_ok alo ahi blo bhi best"
  shows "case inner_loop i blo bhi j2len js (new, best) of
           (new', best') \<Rightarrow> j2len_ok blo bhi (i + 1 - alo) new' \<and> best_ok alo ahi blo bhi best'"
  using assms(4,5)
proof (induction js arbitrary: new best)
  case Nil
  then show ?case by simp
next
  case (Cons j js)
  obtain besti bestj bestsize where best: "best = (besti, bestj, bestsize)"
    by (cases best) auto
  show ?case
  proof (cases "j < blo \<or> bhi \<le> j")
    case True
    then show ?thesis using Cons best by auto
  next
    case False
    then have jr: "blo \<le> j" "j < bhi" by auto
    define k where "k = j2lenget j2len j + 1"
    from j2lenget_le [OF assms(1) jr(1)]
    have kb: "k \<le> i + 1 - alo" "k + blo \<le> j + 1" "0 < k"
      using assms(2) by (auto simp: k_def)
    have new_ok: "j2len_ok blo bhi (i + 1 - alo) (new(j \<mapsto> k))"
      using Cons.prems(1) kb jr by (auto simp: j2len_ok_def)
    have best_new: "best_ok alo ahi blo bhi (i + 1 - k, j + 1 - k, k)"
      using kb jr assms(2,3) by (auto simp: best_ok_def)
    have step: "inner_loop i blo bhi j2len (j # js) (new, best) =
        (if bestsize < k then inner_loop i blo bhi j2len js (new(j \<mapsto> k), i + 1 - k, j + 1 - k, k)
         else inner_loop i blo bhi j2len js (new(j \<mapsto> k), best))"
      using False by (simp add: best k_def Let_def del: fun_upd_apply)
    show ?thesis
      unfolding step
      using Cons.IH [OF new_ok best_new] Cons.IH [OF new_ok Cons.prems(2)]
      by (simp del: fun_upd_apply)
  qed
qed

lemma outer_loop_inv:
  assumes "j2len_ok blo bhi (i - alo) j2len" and "alo \<le> i" and "i + n \<le> ahi \<or> n = 0"
    and "best_ok alo ahi blo bhi best"
  shows "best_ok alo ahi blo bhi (snd (outer_loop a b blo bhi [i..<i + n] (j2len, best)))"
  using assms
proof (induction n arbitrary: i j2len best)
  case 0
  then show ?case by simp
next
  case (Suc n)
  obtain besti bestj bestsize where best: "best = (besti, bestj, bestsize)"
    by (cases best) auto
  have i: "i < ahi" using Suc.prems(3) by auto
  have empty_ok: "j2len_ok blo bhi (i + 1 - alo) Map.empty"
    by (simp add: j2len_ok_def)
  obtain new' best' where
    r: "inner_loop i blo bhi j2len (b2j b (a ! i)) (Map.empty, best) = (new', best')"
    by (cases "inner_loop i blo bhi j2len (b2j b (a ! i)) (Map.empty, best)") auto
  from inner_loop_inv [OF Suc.prems(1) Suc.prems(2) i empty_ok Suc.prems(4), of "b2j b (a ! i)"] r
  have ok: "j2len_ok blo bhi (Suc i - alo) new'" "best_ok alo ahi blo bhi best'" by auto
  have "[i..<i + Suc n] = i # [Suc i..<Suc i + n]"
    by (simp add: upt_rec)
  moreover have "best_ok alo ahi blo bhi (snd (outer_loop a b blo bhi [Suc i..<Suc i + n] (new', best')))"
    using Suc.IH [of "Suc i" new' best'] ok Suc.prems by auto
  ultimately show ?case using r best by simp
qed

lemma extend_back_ok:
  "best_ok alo ahi blo bhi best \<Longrightarrow> best_ok alo ahi blo bhi (extend_back a b alo blo junk best)"
proof (induction a b alo blo junk best rule: extend_back.induct)
  case (1 a b alo blo junk besti bestj bestsize)
  show ?case
  proof (cases "alo < besti \<and> blo < bestj \<and> isbjunk (b ! (bestj - 1)) = junk \<and>
         a ! (besti - 1) = b ! (bestj - 1)")
    case True
    have "best_ok alo ahi blo bhi (besti - 1, bestj - 1, bestsize + 1)"
      using "1.prems" True by (auto simp: best_ok_def split: if_splits)
    with "1.IH" True
    have "best_ok alo ahi blo bhi (extend_back a b alo blo junk (besti - 1, bestj - 1, bestsize + 1))"
      by blast
    moreover have "extend_back a b alo blo junk (besti, bestj, bestsize) =
        extend_back a b alo blo junk (besti - 1, bestj - 1, bestsize + 1)"
      by (subst extend_back.simps) (rule if_P [OF True])
    ultimately show ?thesis by simp
  next
    case False
    have "extend_back a b alo blo junk (besti, bestj, bestsize) = (besti, bestj, bestsize)"
      by (subst extend_back.simps) (rule if_not_P [OF False])
    then show ?thesis using "1.prems" by simp
  qed
qed

lemma extend_fwd_ok:
  "best_ok alo ahi blo bhi best \<Longrightarrow> best_ok alo ahi blo bhi (extend_fwd a b ahi bhi junk best)"
proof (induction a b ahi bhi junk best rule: extend_fwd.induct)
  case (1 a b ahi bhi junk besti bestj bestsize)
  show ?case
  proof (cases "besti + bestsize < ahi \<and> bestj + bestsize < bhi \<and>
         isbjunk (b ! (bestj + bestsize)) = junk \<and>
         a ! (besti + bestsize) = b ! (bestj + bestsize)")
    case True
    have "best_ok alo ahi blo bhi (besti, bestj, bestsize + 1)"
      using "1.prems" True by (auto simp: best_ok_def split: if_splits)
    with "1.IH" True
    have "best_ok alo ahi blo bhi (extend_fwd a b ahi bhi junk (besti, bestj, bestsize + 1))"
      by blast
    moreover have "extend_fwd a b ahi bhi junk (besti, bestj, bestsize) =
        extend_fwd a b ahi bhi junk (besti, bestj, bestsize + 1)"
      by (subst extend_fwd.simps) (rule if_P [OF True])
    ultimately show ?thesis by simp
  next
    case False
    have "extend_fwd a b ahi bhi junk (besti, bestj, bestsize) = (besti, bestj, bestsize)"
      by (subst extend_fwd.simps) (rule if_not_P [OF False])
    then show ?thesis using "1.prems" by simp
  qed
qed

lemma find_longest_match_ok:
  "best_ok alo ahi blo bhi (find_longest_match a b alo ahi blo bhi)"
proof -
  have init: "best_ok alo ahi blo bhi (alo, blo, 0)"
    by (simp add: best_ok_def)
  have empty_ok: "j2len_ok blo bhi (alo - alo) Map.empty"
    by (simp add: j2len_ok_def)
  have "best_ok alo ahi blo bhi
          (snd (outer_loop a b blo bhi [alo..<alo + (ahi - alo)] (Map.empty, alo, blo, 0)))"
    by (rule outer_loop_inv [OF empty_ok _ _ init]) auto
  moreover have "[alo..<alo + (ahi - alo)] = [alo..<ahi]"
    by (cases "alo \<le> ahi") auto
  ultimately have "best_ok alo ahi blo bhi (snd (outer_loop a b blo bhi [alo..<ahi] (Map.empty, alo, blo, 0)))"
    by simp
  then show ?thesis
    unfolding find_longest_match_def
    by (auto split: prod.splits intro!: extend_fwd_ok extend_back_ok)
qed

lemma find_longest_match_bounds:
  assumes "find_longest_match a b alo ahi blo bhi = (i, j, k)" and "k \<noteq> 0"
  shows "alo \<le> i \<and> i + k \<le> ahi \<and> blo \<le> j \<and> j + k \<le> bhi"
  using find_longest_match_ok [of alo ahi blo bhi a b] assms
  by (simp add: best_ok_def)

text \<open>
  \<open>get_matching_blocks\<close>: the queue of windows is a Python list used as a stack
  (\<open>queue.pop()\<close> takes the element appended last), so the head of the list below is the
  end of the Python list.
\<close>

function blocks_loop ::
  "string \<Rightarrow> string \<Rightarrow> (nat \<times> nat \<times> nat \<times> nat) list \<Rightarrow> (nat \<times> nat \<times> nat) list \<Rightarrow>
   (nat \<times> nat \<times> nat) list" where
  "blocks_loop a b [] matching_blocks = matching_blocks"
| "blocks_loop a b ((alo, ahi, blo, bhi) # queue) matching_blocks =
     (case find_longest_match a b alo ahi blo bhi of
        (i, j, k) \<Rightarrow>
          if k \<noteq> 0
          then blocks_loop a b
                 ((if i + k < ahi \<and> j + k < bhi then [(i + k, ahi, j + k, bhi)] else []) @
                  (if alo < i \<and> blo < j then [(alo, i, blo, j)] else []) @ queue)
                 (matching_blocks @ [(i, j, k)])
          else blocks_loop a b queue matching_blocks)"
  by pat_completeness auto
termination
proof (relation "measure (\<lambda>(a, b, queue, matching_blocks).
          sum_list (map (\<lambda>(alo, ahi, blo, bhi). 2 * (ahi - alo) + 1) queue))",
       goal_cases)
  case 1
  then show ?case by simp
next
  case (2 a b alo ahi blo bhi queue matching_blocks i y j k)
  then have "find_longest_match a b alo ahi blo bhi = (i, j, k)" by simp
  from find_longest_match_bounds [OF this \<open>k \<noteq> 0\<close>]
  have "alo \<le> i" and "i + k \<le> ahi" and "0 < k" using \<open>k \<noteq> 0\<close> by auto
  then show ?case by auto
next
  case 3
  then show ?case by simp
qed

declare blocks_loop.simps [simp del]

text \<open>The loop that merges adjacent blocks; the state is \<open>(i1, j1, k1)\<close> and \<open>non_adjacent\<close>.\<close>

fun collapse ::
  "(nat \<times> nat \<times> nat) list \<Rightarrow> nat \<times> nat \<times> nat \<Rightarrow> (nat \<times> nat \<times> nat) list \<Rightarrow>
   (nat \<times> nat \<times> nat) \<times> (nat \<times> nat \<times> nat) list" where
  "collapse [] (i1, j1, k1) non_adjacent = ((i1, j1, k1), non_adjacent)"
| "collapse ((i2, j2, k2) # rest) (i1, j1, k1) non_adjacent =
     (if i1 + k1 = i2 \<and> j1 + k1 = j2 then collapse rest (i1, j1, k1 + k2) non_adjacent
      else collapse rest (i2, j2, k2)
             (if k1 \<noteq> 0 then non_adjacent @ [(i1, j1, k1)] else non_adjacent))"

definition get_matching_blocks :: "string \<Rightarrow> string \<Rightarrow> (nat \<times> nat \<times> nat) list" where
  "get_matching_blocks a b =
     (let la = length a; lb = length b;
          matching_blocks = sort (blocks_loop a b [(0, la, 0, lb)] [])
      in case collapse matching_blocks (0, 0, 0) [] of
           ((i1, j1, k1), non_adjacent) \<Rightarrow>
             (if k1 \<noteq> 0 then non_adjacent @ [(i1, j1, k1)] else non_adjacent) @ [(la, lb, 0)])"

text \<open>
  \<open>_calculate_ratio\<close> and \<open>ratio\<close>.  The Python value is the float nearest to
  \<open>2 * matches / length\<close>; the model keeps the exact rational number.  Rounding to a float
  is monotone, the thresholds of the program (0.5, 0.90) are compared as the floats
  nearest to them, and two different ratios of strings shorter than \<open>2^25\<close> characters
  are further apart than a float can blur.  So for such strings every comparison of the
  program agrees with the comparison of the rationals.
\<close>

definition calculate_ratio :: "nat \<Rightarrow> nat \<Rightarrow> rat" where
  "calculate_ratio matches len =
     (if len \<noteq> 0 then 2 * of_nat matches / of_nat len else 1)"

definition ratio :: "string \<Rightarrow> string \<Rightarrow> rat" where
  "ratio a b =
     (let matches = sum_list (map (\<lambda>(i, j, k). k) (get_matching_blocks a b))
      in calculate_ratio matches (length a + length b))"

section \<open>The program: \<open>textract_to_ddb.py\<close>\<close>

subsection \<open>Python dictionaries\<close>

text \<open>
  A \<open>dict\<close> whose order matters is an association list with distinct keys, in
  insertion order: \<open>d.get(k)\<close> is \<open>map_of d k\<close>, and \<open>d[k] = v\<close> is \<open>dict_set\<close>, which
  keeps the position of a key that is already present.
\<close>

fun dict_set :: "('k \<times> 'v) list \<Rightarrow> 'k \<Rightarrow> 'v \<Rightarrow> ('k \<times> 'v) list" where
  "dict_set [] k v = [(k, v)]"
| "dict_set ((k', v') # d) k v = (if k' = k then (k, v) # d else (k', v') # dict_set d k v)"

text \<open>\<open>d.get(k, default)\<close> for a dictionary of strings.\<close>

definition dict_get :: "(string \<times> string) list \<Rightarrow> string \<Rightarrow> string \<Rightarrow> string" where
  "dict_get d k dflt = (case map_of d k of None \<Rightarrow> dflt | Some v \<Rightarrow> v)"

subsection \<open>The OCR response\<close>

text \<open>
  A block of the Textract response is a dictionary; the record has one optional field
  for each key the program reads.  \<open>Relationships\<close> and \<open>Ids\<close> default to the empty list.
\<close>

record relationship =
  rel_Type :: "string option"
  rel_Ids :: "string list"

record block =
  blk_Id :: "string option"
  BlockType :: "string option"
  Relationships :: "relationship list"
  RowIndex :: "int option"
  ColumnIndex :: "int option"
  Text :: "string option"
  SelectionStatus :: "string option"

text \<open>\<open>idmap = {blk.get("Id"): blk for blk in blocks if "Id" in blk}\<close>: a later block wins.\<close>

fun idmap_of :: "block list \<Rightarrow> (string \<rightharpoonup> block) \<Rightarrow> (string \<rightharpoonup> block)" where
  "idmap_of [] idmap = idmap"
| "idmap_of (blk # blocks) idmap =
     (case blk_Id blk of
        None \<Rightarrow> idmap_of blocks idmap
      | Some i \<Rightarrow> idmap_of blocks (idmap(i \<mapsto> blk)))"

text \<open>\<open>" ".join(ts)\<close>\<close>

fun join_space :: "string list \<Rightarrow> string" where
  "join_space [] = []"
| "join_space [t] = t"
| "join_space (t # u # ts) = t @ '' '' @ join_space (u # ts)"

text \<open>What the body of the loop over the child ids of \<open>_text_from\<close> appends for one id.\<close>

definition child_text :: "(string \<rightharpoonup> block) \<Rightarrow> string \<Rightarrow> string list" where
  "child_text idmap cid =
     (case idmap cid of
        None \<Rightarrow> []
      | Some wb \<Rightarrow>
          if BlockType wb = Some ''WORD'' then [or_else (Text wb) '''']
          else if BlockType wb = Some ''SELECTION_ELEMENT'' \<and> SelectionStatus wb = Some ''SELECTED''
          then [''[X]'']
          else [])"

definition text_from :: "block \<Rightarrow> (string \<rightharpoonup> block) \<Rightarrow> string" where
  "text_from blk idmap =
     (let out = concat (map (\<lambda>rel. if rel_Type rel = Some ''CHILD''
                                    then concat (map (child_text idmap) (rel_Ids rel))
                                    else [])
                            (Relationships blk))
      in strip (join_space (filter (\<lambda>t. t \<noteq> []) out)))"

subsection \<open>\<open>parse_first_table\<close>\<close>

text \<open>
  The loop over the child ids of the table block; the state is \<open>(cells, rmax, cmax)\<close>.
  \<open>int(cell.get("RowIndex", 0))\<close> is the index, or 0 when the key is absent.
\<close>

fun cells_ids ::
  "(string \<rightharpoonup> block) \<Rightarrow> string list \<Rightarrow> (int \<times> int \<rightharpoonup> string) \<times> int \<times> int \<Rightarrow>
   (int \<times> int \<rightharpoonup> string) \<times> int \<times> int" where
  "cells_ids idmap [] st = st"
| "cells_ids idmap (cid # cids) (cells, rmax, cmax) =
     (case idmap cid of
        None \<Rightarrow> cells_ids idmap cids (cells, rmax, cmax)
      | Some cell \<Rightarrow>
          if BlockType cell \<noteq> Some ''CELL'' then cells_ids idmap cids (cells, rmax, cmax)
          else let r = (case RowIndex cell of None \<Rightarrow> 0 | Some v \<Rightarrow> v);
                   c = (case ColumnIndex cell of None \<Rightarrow> 0 | Some v \<Rightarrow> v)
               in cells_ids idmap cids
                    (cells((r, c) \<mapsto> text_from cell idmap), max rmax r, max cmax c))"

fun cells_rels ::
  "(string \<rightharpoonup> block) \<Rightarrow> relationship list \<Rightarrow> (int \<times> int \<rightharpoonup> string) \<times> int \<times> int \<Rightarrow>
   (int \<times> int \<rightharpoonup> string) \<times> int \<times> int" where
  "cells_rels idmap [] st = st"
| "cells_rels idmap (rel # rels) st =
     (if rel_Type rel = Some ''CHILD'' then cells_rels idmap rels (cells_ids idmap (rel_Ids rel) st)
      else cells_rels idmap rels st)"

text \<open>\<open>str(n)\<close> for an integer, as the f-string \<open>f"Col{c}"\<close> formats it.\<close>

fun str_nat :: "nat \<Rightarrow> string" where
  "str_nat n =
     (if n < 10 then [char_of (48 + n)] else str_nat (n div 10) @ [char_of (48 + n mod 10)])"

declare str_nat.simps [simp del]

definition str_int :: "int \<Rightarrow> string" where
  "str_int c = (if c < 0 then ''-'' @ str_nat (nat (- c)) else str_nat (nat c))"

text \<open>The \<open>if\<close>/\<open>elif\<close> chain that turns the lower-cased header text into a column key.\<close>

definition classify_header :: "string \<Rightarrow> string" where
  "classify_header h_raw =
     (if contains ''name'' h_raw then ''Name''
      else if contains ''employee'' h_raw \<and> contains ''id'' h_raw then ''EmployeeID''
      else if contains ''room'' h_raw then ''RoomNumber''
      else if contains ''wake'' h_raw then ''Wake''
      else if contains ''sign'' h_raw then ''Signature''
      else remove_spaces h_raw)"

definition header_raw :: "(int \<times> int \<rightharpoonup> string) \<Rightarrow> int \<Rightarrow> string" where
  "header_raw cells c = lower (strip (or_else (cells (1, c)) (''Col'' @ str_int c)))"

definition header_of :: "(int \<times> int \<rightharpoonup> string) \<Rightarrow> int \<Rightarrow> string list" where
  "header_of cells cmax = map (\<lambda>c. classify_header (header_raw cells c)) [1..cmax]"

text \<open>
  The loop over \<open>enumerate(header, start=1)\<close> that fills one row; the state is
  \<open>(row, is_empty)\<close>, where \<open>is_empty\<close> is the flag \<open>empty\<close> of the source.
\<close>

definition cell_val :: "(int \<times> int \<rightharpoonup> string) \<Rightarrow> int \<Rightarrow> int \<Rightarrow> string" where
  "cell_val cells r ci = strip (or_else (cells (r, ci)) '''')"

fun build_row ::
  "(int \<times> int \<rightharpoonup> string) \<Rightarrow> int \<Rightarrow> (int \<times> string) list \<Rightarrow>
   (string \<times> string) list \<times> bool \<Rightarrow> (string \<times> string) list \<times> bool" where
  "build_row cells r [] st = st"
| "build_row cells r ((ci, key) # rest) (row, is_empty) =
     (let v = cell_val cells r ci
      in build_row cells r rest (dict_set row key v, if v \<noteq> [] then False else is_empty))"

fun data_rows ::
  "(int \<times> int \<rightharpoonup> string) \<Rightarrow> string list \<Rightarrow> int list \<Rightarrow> (string \<times> string) list list \<Rightarrow>
   (string \<times> string) list list" where
  "data_rows cells header [] out_rows = out_rows"
| "data_rows cells header (r # rs) out_rows =
     (case build_row cells r (zip [1..int (length header)] header) ([], True) of
        (row, is_empty) \<Rightarrow>
          data_rows cells header rs (if \<not> is_empty then out_rows @ [row] else out_rows))"

definition table_cells :: "block list \<Rightarrow> block \<Rightarrow> (int \<times> int \<rightharpoonup> string) \<times> int \<times> int" where
  "table_cells blocks table_blk =
     cells_rels (idmap_of blocks Map.empty) (Relationships table_blk) (Map.empty, 0, 0)"

definition parse_first_table :: "block list \<Rightarrow> (string \<times> string) list list" where
  "parse_first_table blocks =
     (case find (\<lambda>blk. BlockType blk = Some ''TABLE'') blocks of
        None \<Rightarrow> []
      | Some table_blk \<Rightarrow>
          (case table_cells blocks table_blk of
             (cells, rmax, cmax) \<Rightarrow>
               data_rows cells (header_of cells cmax) [2..rmax] []))"

subsection \<open>\<open>sim\<close> and \<open>find_best_match\<close>\<close>

definition sim :: "string option \<Rightarrow> string option \<Rightarrow> rat" where
  "sim a b =
     (let a = lower (strip (or_else a ''''));
          b = lower (strip (or_else b ''''))
      in if a \<noteq> [] \<and> b \<noteq> [] then ratio a b else 0)"

text \<open>
  A roster profile is a dictionary from attribute names to values, and \<open>all_profiles\<close> is
  a dictionary from employee identifiers to profiles; its iteration order is the order of
  the list.
\<close>

type_synonym profile = "(string \<times> string) list"

type_synonym profiles = "(string \<times> profile) list"

text \<open>The dictionary \<open>{"emp_id": .., "name": .., "profile": ..}\<close> that \<open>find_best_match\<close> returns.\<close>

record best_match =
  bm_emp_id :: string
  bm_name :: string
  bm_profile :: profile

text \<open>The loop over \<open>profiles.items()\<close>; the state is \<open>(best_match, best_confidence)\<close>.\<close>

fun best_match_loop ::
  "string \<Rightarrow> profiles \<Rightarrow> best_match option \<times> rat \<Rightarrow> best_match option \<times> rat" where
  "best_match_loop tname [] st = st"
| "best_match_loop tname ((eid, prof) # rest) (best, best_confidence) =
     (let db_name = dict_get prof ''Name'' '''';
          c = sim (Some tname) (Some db_name)
      in if best_confidence < c
         then best_match_loop tname rest
                (Some \<lparr>bm_emp_id = eid, bm_name = db_name, bm_profile = prof\<rparr>, c)
         else best_match_loop tname rest (best, best_confidence))"

definition find_best_match :: "string \<Rightarrow> profiles \<Rightarrow> best_match option \<times> rat" where
  "find_best_match tname all_profiles =
     (if strip tname = [] then (None, 0) else best_match_loop tname all_profiles (None, 0))"

subsection \<open>\<open>process\<close>\<close>

datatype match_type = ID | NAME | NONE

datatype error = TypeError | ZeroDivisionError

text \<open>The values a row leaves in \<open>matched_profile\<close>, \<open>confidence\<close>, \<open>match_type\<close> and \<open>matched_emp_id\<close>.\<close>

record match_result =
  matched_profile :: "profile option"
  confidence :: rat
  match_type :: match_type
  matched_emp_id :: string

text \<open>The direct identifier match (lines 152 to 158): \<open>(direct_match, direct_confidence)\<close>.\<close>

definition direct_id_match :: "profiles \<Rightarrow> string \<Rightarrow> string \<Rightarrow> profile option \<times> rat" where
  "direct_id_match all_profiles tname eid =
     (if eid \<noteq> [] then
        (case map_of all_profiles eid of
           Some direct_match \<Rightarrow>
             (Some direct_match, sim (Some tname) (Some (dict_get direct_match ''Name'' '''')))
         | None \<Rightarrow> (None, 0))
      else (None, 0))"

text \<open>
  The choice between the two matches (lines 163 to 185), with the list \<open>extra_names\<close>
  it may extend.  \<open>name_match["profile"]\<close> raises \<open>TypeError\<close> when \<open>name_match\<close> is
  \<open>None\<close>.
\<close>

definition choose_match ::
  "string \<Rightarrow> string \<Rightarrow> profile option \<times> rat \<Rightarrow> best_match option \<times> rat \<Rightarrow> string list \<Rightarrow>
   error + match_result \<times> string list" where
  "choose_match tname eid direct name extra_names =
     (case direct of (direct_match, direct_confidence) \<Rightarrow>
      case name of (name_match, name_confidence) \<Rightarrow>
        if name_confidence \<le> direct_confidence \<and> 1 / 2 < direct_confidence then
          Inr (\<lparr>matched_profile = direct_match, confidence = direct_confidence,
                match_type = ID, matched_emp_id = eid\<rparr>, extra_names)
        else if 1 / 2 < name_confidence then
          (case name_match of
             None \<Rightarrow> Inl TypeError
           | Some m \<Rightarrow>
               Inr (\<lparr>matched_profile = Some (bm_profile m), confidence = name_confidence,
                     match_type = NAME, matched_emp_id = bm_emp_id m\<rparr>, extra_names))
        else
          Inr (\<lparr>matched_profile = None, confidence = 0, match_type = NONE,
                matched_emp_id = (if eid \<noteq> [] then eid else ''UNKNOWN'')\<rparr>,
               if tname \<noteq> [] then extra_names @ [tname] else extra_names))"

text \<open>\<open>bool(matched_profile)\<close>: \<open>None\<close> and the empty dictionary are falsy.\<close>

definition truthy :: "profile option \<Rightarrow> bool" where
  "truthy p = (case p of None \<Rightarrow> False | Some d \<Rightarrow> d \<noteq> [])"

text \<open>
  \<open>round(x, 3)\<close>, to the nearest multiple of 0.001 and to the even one on a tie.  On the
  exact rational a tie can arise where the float of the program lies to one side of it.
\<close>

definition round3 :: "rat \<Rightarrow> rat" where
  "round3 x =
     (let y = x * 1000; f = floor y; d = y - of_int f
      in of_int (if d < 1 / 2 then f else if 1 / 2 < d then f + 1
                 else if even f then f else f + 1) / 1000)"

record validation =
  v_valid :: bool
  v_confidence :: rat
  v_matchedName :: string
  v_matchType :: match_type

record item =
  PK :: string
  SK :: string
  EmployeeID :: string
  Name :: string
  SheetDate :: string
  RoomNumber :: string
  Wake :: string
  SignaturePresent :: bool
  SheetId :: string
  Validation :: validation

record processed_record =
  pr_row :: nat
  pr_textract_name :: string
  pr_emp_id :: string
  pr_matched_emp_id :: string
  pr_matched_name :: string
  pr_confidence :: rat
  pr_match_type :: match_type
  pr_valid :: bool

text \<open>
  What the loop over the rows carries: the set \<open>matched_employees\<close> and the lists
  \<open>processed_records\<close> and \<open>extra_names\<close>; \<open>items\<close> collects the \<open>item\<close> built for each
  row, which the program builds and does not store.
\<close>

record state =
  matched_employees :: "string set"
  processed_records :: "processed_record list"
  extra_names :: "string list"
  items :: "item list"

definition matched_name_of :: "profile option \<Rightarrow> string" where
  "matched_name_of p = (if truthy p then dict_get (the p) ''Name'' '''' else '''')"

text \<open>The row's name and identifier as the loop body normalises them (lines 146 and 147).\<close>

definition textract_name_of :: "(string \<times> string) list \<Rightarrow> string" where
  "textract_name_of r = strip (or_else (map_of r ''Name'') '''')"

definition emp_id_of :: "(string \<times> string) list \<Rightarrow> string" where
  "emp_id_of r = strip (remove_spaces (or_else (map_of r ''EmployeeID'') ''''))"

text \<open>\<open>valid = bool(matched_profile) and confidence >= 0.90\<close>\<close>

definition is_valid :: "profile option \<Rightarrow> rat \<Rightarrow> bool" where
  "is_valid p c = (truthy p \<and> 9 / 10 \<le> c)"

text \<open>The body of the loop \<open>for i, r in enumerate(rows, 1)\<close>.\<close>

definition process_row ::
  "profiles \<Rightarrow> string \<Rightarrow> string \<Rightarrow> nat \<Rightarrow> (string \<times> string) list \<Rightarrow> state \<Rightarrow> error + state" where
  "process_row all_profiles sheet_date sheet_id i r st =
     (let tname = textract_name_of r;
          eid = emp_id_of r
      in case choose_match tname eid (direct_id_match all_profiles tname eid)
                (find_best_match tname all_profiles) (extra_names st) of
           Inl e \<Rightarrow> Inl e
         | Inr (m, extra) \<Rightarrow>
             let valid = is_valid (matched_profile m) (confidence m);
                 matched = (if truthy (matched_profile m)
                            then insert (matched_emp_id m) (matched_employees st)
                            else matched_employees st);
                 it = \<lparr>PK = ''EMP#'' @ matched_emp_id m, SK = ''SIGNIN#'' @ sheet_date,
                       EmployeeID = matched_emp_id m, Name = tname, SheetDate = sheet_date,
                       RoomNumber = dict_get r ''RoomNumber'' '''',
                       Wake = dict_get r ''Wake'' '''',
                       SignaturePresent = (or_else (map_of r ''Signature'') '''' \<noteq> []),
                       SheetId = sheet_id,
                       Validation = \<lparr>v_valid = valid, v_confidence = round3 (confidence m),
                                      v_matchedName = matched_name_of (matched_profile m),
                                      v_matchType = match_type m\<rparr>\<rparr>;
                 rec = \<lparr>pr_row = i, pr_textract_name = tname, pr_emp_id = eid,
                        pr_matched_emp_id = matched_emp_id m,
                        pr_matched_name = matched_name_of (matched_profile m),
                        pr_confidence = confidence m, pr_match_type = match_type m,
                        pr_valid = valid\<rparr>
             in Inr \<lparr>matched_employees = matched,
                     processed_records = processed_records st @ [rec],
                     extra_names = extra, items = items st @ [it]\<rparr>)"

fun process_rows ::
  "profiles \<Rightarrow> string \<Rightarrow> string \<Rightarrow> nat \<Rightarrow> (string \<times> string) list list \<Rightarrow> state \<Rightarrow> error + state" where
  "process_rows all_profiles sheet_date sheet_id i [] st = Inr st"
| "process_rows all_profiles sheet_date sheet_id i (r # rows) st =
     (case process_row all_profiles sheet_date sheet_id i r st of
        Inl e \<Rightarrow> Inl e
      | Inr st' \<Rightarrow> process_rows all_profiles sheet_date sheet_id (i + 1) rows st')"

text \<open>Python's true division raises on a zero divisor.\<close>

definition truediv :: "rat \<Rightarrow> rat \<Rightarrow> error + rat" where
  "truediv x y = (if y = 0 then Inl ZeroDivisionError else Inr (x / y))"

text \<open>
  \<open>(len(matched_employees) / len(all_profiles)) * 100 if all_profiles else 0\<close>
\<close>

definition overall_match_pct :: "string set \<Rightarrow> profiles \<Rightarrow> error + rat" where
  "overall_match_pct matched all_profiles =
     (if all_profiles \<noteq> [] then
        (case truediv (of_nat (card matched)) (of_nat (length all_profiles)) of
           Inl e \<Rightarrow> Inl e
         | Inr q \<Rightarrow> Inr (q * 100))
      else Inr 0)"

record summary =
  total_rows :: nat
  valid_matches :: nat
  high_conf_matches :: nat
  id_matches :: nat
  name_matches :: nat
  no_matches :: nat
  unmatched_employees :: "string set"
  match_pct :: rat

text \<open>
  \<open>process\<close>, from the OCR response \<open>blocks\<close> and the roster \<open>all_profiles\<close> on: the
  state after the loop and the figures of the summary.  Reading the image, the calls to
  Textract and DynamoDB and the printing are left out.
\<close>

definition process ::
  "block list \<Rightarrow> profiles \<Rightarrow> string \<Rightarrow> string \<Rightarrow> error + state \<times> summary" where
  "process blocks all_profiles sheet_date sheet_id =
     (let rows = parse_first_table blocks
      in case process_rows all_profiles sheet_date sheet_id 1 rows
                \<lparr>matched_employees = {}, processed_records = [], extra_names = [], items = []\<rparr> of
           Inl e \<Rightarrow> Inl e
         | Inr st \<Rightarrow>
             (case overall_match_pct (matched_employees st) all_profiles of
                Inl e \<Rightarrow> Inl e
              | Inr pct \<Rightarrow>
                  Inr (st,
                       \<lparr>total_rows = length rows,
                        valid_matches = length (filter pr_valid (processed_records st)),
                        high_conf_matches =
                          length (filter (\<lambda>r. 8 / 10 \<le> pr_confidence r) (processed_records st)),
                        id_matches = length (filter (\<lambda>r. pr_match_type r = ID) (processed_records st)),
                        name_matches =
                          length (filter (\<lambda>r. pr_match_type r = NAME) (processed_records st)),
                        no_matches = length (filter (\<lambda>r. pr_match_type r = NONE) (processed_records st)),
                        unmatched_employees = set (map fst all_profiles) - matched_employees st,
                        match_pct = pct\<rparr>)))"

section \<open>Properties of the reconciler\<close>

lemma sim_pos_profile:
  assumes "0 < sim a (Some (dict_get prof ''Name'' ''''))"
  shows "prof \<noteq> []"
proof
  assume "prof = []"
  then have "sim a (Some (dict_get prof ''Name'' '''')) = 0"
    by (simp add: sim_def dict_get_def strip_def lower_def Let_def)
  with assms show False by simp
qed

text \<open>
  What the scan of the roster returns from the state \<open>(best, bc)\<close>: either nothing
  beats \<open>bc\<close> and the state is unchanged, or the result is the first entry whose
  similarity is the largest one, which is above \<open>bc\<close>.
\<close>

definition name_sim :: "string \<Rightarrow> profile \<Rightarrow> rat" where
  "name_sim tname prof = sim (Some tname) (Some (dict_get prof ''Name'' ''''))"

definition candidate :: "string \<times> profile \<Rightarrow> best_match" where
  "candidate ep = \<lparr>bm_emp_id = fst ep, bm_name = dict_get (snd ep) ''Name'' '''', bm_profile = snd ep\<rparr>"

definition first_best :: "string \<Rightarrow> profiles \<Rightarrow> rat \<Rightarrow> best_match option \<times> rat \<Rightarrow> bool" where
  "first_best tname ps bc res =
     (\<exists>pre ep post. ps = pre @ ep # post \<and> res = (Some (candidate ep), name_sim tname (snd ep)) \<and>
        bc < name_sim tname (snd ep) \<and>
        (\<forall>q \<in> set pre. name_sim tname (snd q) < name_sim tname (snd ep)) \<and>
        (\<forall>q \<in> set post. name_sim tname (snd q) \<le> name_sim tname (snd ep)))"

lemma best_match_loop_step:
  "best_match_loop tname (ep # rest) (best, bc) =
     (if bc < name_sim tname (snd ep)
      then best_match_loop tname rest (Some (candidate ep), name_sim tname (snd ep))
      else best_match_loop tname rest (best, bc))"
  by (cases ep) (simp add: name_sim_def candidate_def Let_def)

lemma best_match_loop_first:
  "(best_match_loop tname ps (best, bc) = (best, bc) \<and>
      (\<forall>q \<in> set ps. name_sim tname (snd q) \<le> bc)) \<or>
   first_best tname ps bc (best_match_loop tname ps (best, bc))"
proof (induction ps arbitrary: best bc)
  case Nil
  then show ?case by simp
next
  case (Cons ep rest)
  let ?c = "name_sim tname (snd ep)"
  show ?case
  proof (cases "bc < ?c")
    case True
    have step: "best_match_loop tname (ep # rest) (best, bc) =
        best_match_loop tname rest (Some (candidate ep), ?c)"
      using True by (simp add: best_match_loop_step)
    from Cons.IH [of "Some (candidate ep)" ?c]
    show ?thesis
    proof
      assume a: "best_match_loop tname rest (Some (candidate ep), ?c) = (Some (candidate ep), ?c) \<and>
        (\<forall>q \<in> set rest. name_sim tname (snd q) \<le> ?c)"
      have "first_best tname (ep # rest) bc (best_match_loop tname (ep # rest) (best, bc))"
        unfolding first_best_def step
        by (rule exI [of _ "[]"], rule exI [of _ ep], rule exI [of _ rest]) (use a True in simp)
      then show ?thesis ..
    next
      assume "first_best tname rest ?c (best_match_loop tname rest (Some (candidate ep), ?c))"
      then obtain pre eq post where
        p: "rest = pre @ eq # post"
           "best_match_loop tname rest (Some (candidate ep), ?c) =
              (Some (candidate eq), name_sim tname (snd eq))"
           "?c < name_sim tname (snd eq)"
           "\<forall>q \<in> set pre. name_sim tname (snd q) < name_sim tname (snd eq)"
           "\<forall>q \<in> set post. name_sim tname (snd q) \<le> name_sim tname (snd eq)"
        unfolding first_best_def by blast
      have "first_best tname (ep # rest) bc (best_match_loop tname (ep # rest) (best, bc))"
        unfolding first_best_def step
        by (rule exI [of _ "ep # pre"], rule exI [of _ eq], rule exI [of _ post])
           (use p True in auto)
      then show ?thesis ..
    qed
  next
    case False
    have step: "best_match_loop tname (ep # rest) (best, bc) =
        best_match_loop tname rest (best, bc)"
      using False by (simp add: best_match_loop_step)
    from Cons.IH [of best bc]
    show ?thesis
    proof
      assume "best_match_loop tname rest (best, bc) = (best, bc) \<and>
        (\<forall>q \<in> set rest. name_sim tname (snd q) \<le> bc)"
      then show ?thesis using False step by auto
    next
      assume "first_best tname rest bc (best_match_loop tname rest (best, bc))"
      then obtain pre eq post where
        p: "rest = pre @ eq # post"
           "best_match_loop tname rest (best, bc) =
              (Some (candidate eq), name_sim tname (snd eq))"
           "bc < name_sim tname (snd eq)"
           "\<forall>q \<in> set pre. name_sim tname (snd q) < name_sim tname (snd eq)"
           "\<forall>q \<in> set post. name_sim tname (snd q) \<le> name_sim tname (snd eq)"
        unfolding first_best_def by blast
      have "first_best tname (ep # rest) bc (best_match_loop tname (ep # rest) (best, bc))"
        unfolding first_best_def step
        by (rule exI [of _ "ep # pre"], rule exI [of _ eq], rule exI [of _ post])
           (use p False in auto)
      then show ?thesis ..
    qed
  qed
qed

lemma find_best_match_cases:
  "(find_best_match tname ps = (None, 0) \<and>
      (strip tname = [] \<or> (\<forall>q \<in> set ps. name_sim tname (snd q) \<le> 0))) \<or>
   (strip tname \<noteq> [] \<and> first_best tname ps 0 (find_best_match tname ps))"
  using best_match_loop_first [of tname ps None 0]
  by (auto simp: find_best_match_def)

text \<open>
  Claim C10.  The scan of the roster in \<open>find_best_match\<close> replaces the best match only
  on a strictly greater similarity.  So whenever it returns a match, the roster splits
  around the entry returned: every entry before it is strictly less similar to the row's
  name, and every entry after it is at most as similar.  Among several entries with the
  maximal similarity the first in iteration order is the one returned.  No match is
  returned exactly when the name is blank or no entry has a positive similarity.
\<close>

theorem find_best_match_first_maximum:
  "(fst (find_best_match tname ps) = None \<longleftrightarrow>
      strip tname = [] \<or> (\<forall>q \<in> set ps. name_sim tname (snd q) \<le> 0)) \<and>
   (\<forall>m c. find_best_match tname ps = (Some m, c) \<longrightarrow>
      (\<exists>pre ep post. ps = pre @ ep # post \<and> m = candidate ep \<and>
         c = name_sim tname (snd ep) \<and>
         (\<forall>q \<in> set pre. name_sim tname (snd q) < c) \<and>
         (\<forall>q \<in> set post. name_sim tname (snd q) \<le> c)))"
proof -
  from find_best_match_cases [of tname ps]
  show ?thesis
  proof
    assume "find_best_match tname ps = (None, 0) \<and>
      (strip tname = [] \<or> (\<forall>q \<in> set ps. name_sim tname (snd q) \<le> 0))"
    then show ?thesis by simp
  next
    assume a: "strip tname \<noteq> [] \<and> first_best tname ps 0 (find_best_match tname ps)"
    then obtain pre ep post where
      p: "ps = pre @ ep # post"
         "find_best_match tname ps = (Some (candidate ep), name_sim tname (snd ep))"
         "0 < name_sim tname (snd ep)"
         "\<forall>q \<in> set pre. name_sim tname (snd q) < name_sim tname (snd ep)"
         "\<forall>q \<in> set post. name_sim tname (snd q) \<le> name_sim tname (snd ep)"
      unfolding first_best_def by blast
    have "\<not> (\<forall>q \<in> set ps. name_sim tname (snd q) \<le> 0)"
      using p(1,3) by auto
    moreover have "\<exists>pre ep post. ps = pre @ ep # post \<and> m = candidate ep \<and>
         c = name_sim tname (snd ep) \<and>
         (\<forall>q \<in> set pre. name_sim tname (snd q) < c) \<and>
         (\<forall>q \<in> set post. name_sim tname (snd q) \<le> c)"
      if "find_best_match tname ps = (Some m, c)" for m c
    proof -
      from that p(2) have "m = candidate ep" and "c = name_sim tname (snd ep)"
        by simp_all
      with p(1,4,5) show ?thesis by blast
    qed
    ultimately show ?thesis using a p(2) by simp
  qed
qed

theorem find_best_match_first_maximum_witness:
  "find_best_match ''Ann'' [(''1'', [(''Name'', ''Ann'')]), (''2'', [(''Name'', ''Ann'')])] =
     (Some \<lparr>bm_emp_id = ''1'', bm_name = ''Ann'', bm_profile = [(''Name'', ''Ann'')]\<rparr>, 1) \<and>
   (\<exists>pre ep post.
      [(''1'', [(''Name'', ''Ann'')]), (''2'', [(''Name'', ''Ann'')])] = pre @ ep # post \<and>
      \<lparr>bm_emp_id = ''1'', bm_name = ''Ann'', bm_profile = [(''Name'', ''Ann'')]\<rparr> = candidate ep \<and>
      (\<forall>q \<in> set pre. name_sim ''Ann'' (snd q) < 1) \<and>
      (\<forall>q \<in> set post. name_sim ''Ann'' (snd q) \<le> 1))"
proof -
  have e: "find_best_match ''Ann'' [(''1'', [(''Name'', ''Ann'')]), (''2'', [(''Name'', ''Ann'')])] =
     (Some \<lparr>bm_emp_id = ''1'', bm_name = ''Ann'', bm_profile = [(''Name'', ''Ann'')]\<rparr>, 1)"
    by code_simp
  from find_best_match_first_maximum
         [of "''Ann''" "[(''1'', [(''Name'', ''Ann'')]), (''2'', [(''Name'', ''Ann'')])]"] e
  show ?thesis by blast
qed

text \<open>
  The outcome of a row, written as one expression of the two confidences.  The lemmas
  below show that \<open>choose_match\<close> always returns it and never raises.
\<close>

definition row_match :: "profiles \<Rightarrow> (string \<times> string) list \<Rightarrow> match_result" where
  "row_match ps r =
     (let tname = textract_name_of r; eid = emp_id_of r;
          d = direct_id_match ps tname eid; n = find_best_match tname ps
      in if snd n \<le> snd d \<and> 1 / 2 < snd d then
           \<lparr>matched_profile = fst d, confidence = snd d, match_type = ID, matched_emp_id = eid\<rparr>
         else if 1 / 2 < snd n then
           \<lparr>matched_profile = map_option bm_profile (fst n), confidence = snd n,
            match_type = NAME, matched_emp_id = (case fst n of None \<Rightarrow> [] | Some m \<Rightarrow> bm_emp_id m)\<rparr>
         else
           \<lparr>matched_profile = None, confidence = 0, match_type = NONE,
            matched_emp_id = (if eid \<noteq> [] then eid else ''UNKNOWN'')\<rparr>)"

lemma name_sim_pos_nonempty: "0 < name_sim tname prof \<Longrightarrow> prof \<noteq> []"
  unfolding name_sim_def by (rule sim_pos_profile)

lemma direct_id_match_cases:
  "direct_id_match ps tname eid = (None, 0) \<or>
   (\<exists>prof. eid \<noteq> [] \<and> map_of ps eid = Some prof \<and>
      direct_id_match ps tname eid = (Some prof, name_sim tname prof))"
  by (auto simp: direct_id_match_def name_sim_def split: option.splits)

lemma find_best_match_result:
  "find_best_match tname ps = (None, 0) \<or>
   (\<exists>ep \<in> set ps. find_best_match tname ps = (Some (candidate ep), name_sim tname (snd ep)) \<and>
      0 < name_sim tname (snd ep))"
  using find_best_match_cases [of tname ps]
  by (auto simp: first_best_def)

lemma choose_match_row_match:
  "choose_match (textract_name_of r) (emp_id_of r)
     (direct_id_match ps (textract_name_of r) (emp_id_of r))
     (find_best_match (textract_name_of r) ps) extra =
   Inr (row_match ps r,
        if match_type (row_match ps r) = NONE \<and> textract_name_of r \<noteq> []
        then extra @ [textract_name_of r] else extra)"
proof -
  let ?t = "textract_name_of r" and ?e = "emp_id_of r"
  obtain dm dc where d: "direct_id_match ps ?t ?e = (dm, dc)"
    by (cases "direct_id_match ps ?t ?e") auto
  obtain nm nc where n: "find_best_match ?t ps = (nm, nc)"
    by (cases "find_best_match ?t ps") auto
  have nm: "nm \<noteq> None" if "1 / 2 < nc"
    using find_best_match_result [of ?t ps] n that by auto
  show ?thesis
  proof (cases "nc \<le> dc \<and> 1 / 2 < dc")
    case True
    then show ?thesis
      by (auto simp: choose_match_def row_match_def Let_def d n)
  next
    case False
    show ?thesis
    proof (cases "1 / 2 < nc")
      case True
      with nm obtain m where "nm = Some m" by auto
      with True False show ?thesis
        by (auto simp: choose_match_def row_match_def Let_def d n)
    next
      case nc: False
      with False d n show ?thesis
        by (auto simp: choose_match_def row_match_def Let_def)
    qed
  qed
qed

lemma truthy_row_match:
  "truthy (matched_profile (row_match ps r)) \<longleftrightarrow> match_type (row_match ps r) \<noteq> NONE"
proof -
  let ?t = "textract_name_of r" and ?e = "emp_id_of r"
  obtain dm dc where d: "direct_id_match ps ?t ?e = (dm, dc)"
    by (cases "direct_id_match ps ?t ?e") auto
  obtain nm nc where n: "find_best_match ?t ps = (nm, nc)"
    by (cases "find_best_match ?t ps") auto
  have dm: "truthy dm" if "1 / 2 < dc"
    using direct_id_match_cases [of ps ?t ?e] d that name_sim_pos_nonempty [of ?t]
    by (auto simp: truthy_def)
  have nm: "truthy (map_option bm_profile nm)" if "1 / 2 < nc"
  proof -
    from find_best_match_result [of ?t ps] n that
    obtain ep where "nm = Some (candidate ep)" and "0 < name_sim ?t (snd ep)"
      by auto
    then show ?thesis
      using name_sim_pos_nonempty [of ?t "snd ep"] by (simp add: truthy_def candidate_def)
  qed
  show ?thesis
  proof (cases "nc \<le> dc \<and> 1 / 2 < dc")
    case True
    then show ?thesis
      using dm by (auto simp: row_match_def Let_def d n)
  next
    case False
    show ?thesis
    proof (cases "1 / 2 < nc")
      case True
      with False show ?thesis
        using nm by (auto simp: row_match_def Let_def d n)
    next
      case nc: False
      with False show ?thesis
        by (auto simp: row_match_def Let_def d n truthy_def)
    qed
  qed
qed

lemma process_row_eq:
  "process_row ps sheet_date sheet_id i r st =
     Inr \<lparr>matched_employees =
            (if match_type (row_match ps r) \<noteq> NONE
             then insert (matched_emp_id (row_match ps r)) (matched_employees st)
             else matched_employees st),
          processed_records = processed_records st @
            [\<lparr>pr_row = i, pr_textract_name = textract_name_of r, pr_emp_id = emp_id_of r,
              pr_matched_emp_id = matched_emp_id (row_match ps r),
              pr_matched_name = matched_name_of (matched_profile (row_match ps r)),
              pr_confidence = confidence (row_match ps r),
              pr_match_type = match_type (row_match ps r),
              pr_valid = (match_type (row_match ps r) \<noteq> NONE \<and> 9 / 10 \<le> confidence (row_match ps r))\<rparr>],
          extra_names =
            (if match_type (row_match ps r) = NONE \<and> textract_name_of r \<noteq> []
             then extra_names st @ [textract_name_of r] else extra_names st),
          items = items st @
            [\<lparr>PK = ''EMP#'' @ matched_emp_id (row_match ps r), SK = ''SIGNIN#'' @ sheet_date,
              EmployeeID = matched_emp_id (row_match ps r), Name = textract_name_of r,
              SheetDate = sheet_date,
              RoomNumber = dict_get r ''RoomNumber'' '''',
              Wake = dict_get r ''Wake'' '''',
              SignaturePresent = (or_else (map_of r ''Signature'') '''' \<noteq> []),
              SheetId = sheet_id,
              Validation =
                \<lparr>v_valid = (match_type (row_match ps r) \<noteq> NONE \<and> 9 / 10 \<le> confidence (row_match ps r)),
                 v_confidence = round3 (confidence (row_match ps r)),
                 v_matchedName = matched_name_of (matched_profile (row_match ps r)),
                 v_matchType = match_type (row_match ps r)\<rparr>\<rparr>]\<rparr>"
  unfolding process_row_def Let_def choose_match_row_match
  by (simp add: is_valid_def truthy_row_match)

text \<open>
  Claim C1.  For every row, roster and state the loop body returns normally, and the
  \<open>valid\<close> flag it records (in the processed record and in the \<open>Validation\<close> of the
  item) is true if and only if the match type is not \<open>NONE\<close> and the confidence is at
  least 0.90.  At the boundary the test \<open>is_valid\<close> of the program accepts a matched
  profile with confidence exactly 0.90 and rejects every confidence of 0.899.
\<close>

theorem valid_iff_matched_and_confident:
  "(\<exists>st' rec it. process_row ps sheet_date sheet_id i r st = Inr st' \<and>
      processed_records st' = processed_records st @ [rec] \<and>
      items st' = items st @ [it] \<and>
      pr_valid rec = (pr_match_type rec \<noteq> NONE \<and> 9 / 10 \<le> pr_confidence rec) \<and>
      v_valid (Validation it) = pr_valid rec \<and>
      v_matchType (Validation it) = pr_match_type rec) \<and>
   is_valid p (9 / 10) = truthy p \<and>
   is_valid p (899 / 1000) = False"
  unfolding process_row_eq by (simp add: is_valid_def)

theorem valid_iff_matched_and_confident_witness:
  "\<exists>st' rec.
     process_row [(''7'', [(''Name'', ''abcdefghiX'')])] ''2024-01-01'' ''''  1
       [(''EmployeeID'', ''7''), (''Name'', ''abcdefghij'')]
       \<lparr>matched_employees = {}, processed_records = [], extra_names = [], items = []\<rparr> = Inr st' \<and>
     processed_records st' = [rec] \<and> pr_match_type rec = ID \<and>
     pr_confidence rec = 9 / 10 \<and> pr_valid rec"
proof -
  let ?ps = "[(''7'', [(''Name'', ''abcdefghiX'')])]"
  let ?r = "[(''EmployeeID'', ''7''), (''Name'', ''abcdefghij'')]"
  let ?st = "\<lparr>matched_employees = {}, processed_records = [], extra_names = [], items = []\<rparr>"
  have m: "row_match ?ps ?r =
      \<lparr>matched_profile = Some [(''Name'', ''abcdefghiX'')], confidence = 9 / 10,
       match_type = ID, matched_emp_id = ''7''\<rparr>"
    by code_simp
  from valid_iff_matched_and_confident [of ?ps "''2024-01-01''" "''''" 1 ?r ?st None]
  obtain st' rec it where
    s: "process_row ?ps ''2024-01-01'' '''' 1 ?r ?st = Inr st'"
       "processed_records st' = processed_records ?st @ [rec]"
       "pr_valid rec = (pr_match_type rec \<noteq> NONE \<and> 9 / 10 \<le> pr_confidence rec)"
    by blast
  from s(1,2) have "pr_match_type rec = ID" and "pr_confidence rec = 9 / 10"
    unfolding process_row_eq m by auto
  with s show ?thesis by auto
qed

text \<open>
  Claim C2.  For every row the loop body returns normally.  With \<open>dc\<close> the confidence of
  the direct identifier match and \<open>nc\<close> the best confidence of the name search: if
  \<open>nc \<le> dc\<close> and \<open>dc > 0.5\<close> the match type is \<open>ID\<close>, the matched identifier is the row's
  identifier and the matched profile is the roster entry under it; otherwise, if
  \<open>nc > 0.5\<close>, the match type is \<open>NAME\<close> and the best name match is taken; otherwise the
  match type is \<open>NONE\<close>.  A tie \<open>dc = nc > 0.5\<close> falls under the first case.
\<close>

theorem selection_policy:
  "\<exists>st' rec. process_row ps sheet_date sheet_id i r st = Inr st' \<and>
      processed_records st' = processed_records st @ [rec] \<and>
      (let tname = textract_name_of r; eid = emp_id_of r;
           dc = snd (direct_id_match ps tname eid);
           name_match = fst (find_best_match tname ps);
           nc = snd (find_best_match tname ps)
       in if nc \<le> dc \<and> 1 / 2 < dc then
            pr_match_type rec = ID \<and> pr_matched_emp_id rec = eid \<and> pr_confidence rec = dc \<and>
            (\<exists>prof. map_of ps eid = Some prof \<and>
               pr_matched_name rec = dict_get prof ''Name'' '''')
          else if 1 / 2 < nc then
            pr_match_type rec = NAME \<and> pr_confidence rec = nc \<and>
            (\<exists>m. name_match = Some m \<and> pr_matched_emp_id rec = bm_emp_id m \<and>
               pr_matched_name rec = bm_name m)
          else pr_match_type rec = NONE)"
proof -
  let ?t = "textract_name_of r" and ?e = "emp_id_of r"
  obtain dm dc where d: "direct_id_match ps ?t ?e = (dm, dc)"
    by (cases "direct_id_match ps ?t ?e") auto
  obtain nm nc where n: "find_best_match ?t ps = (nm, nc)"
    by (cases "find_best_match ?t ps") auto
  have dm: "\<exists>prof. map_of ps ?e = Some prof \<and> dm = Some prof \<and> prof \<noteq> []" if "1 / 2 < dc"
    using direct_id_match_cases [of ps ?t ?e] d that name_sim_pos_nonempty [of ?t]
    by auto
  have nm: "\<exists>ep. nm = Some (candidate ep) \<and> snd ep \<noteq> []" if "1 / 2 < nc"
  proof -
    from find_best_match_result [of ?t ps] n that
    obtain ep where "nm = Some (candidate ep)" and "0 < name_sim ?t (snd ep)"
      by auto
    then show ?thesis
      using name_sim_pos_nonempty [of ?t "snd ep"] by blast
  qed
  show ?thesis
  proof (cases "nc \<le> dc \<and> 1 / 2 < dc")
    case True
    with dm obtain prof where "map_of ps ?e = Some prof" "dm = Some prof" "prof \<noteq> []"
      by auto
    with True show ?thesis
      unfolding process_row_eq
      by (auto simp: row_match_def Let_def d n matched_name_of_def truthy_def)
  next
    case False
    show ?thesis
    proof (cases "1 / 2 < nc")
      case True
      with nm obtain ep where "nm = Some (candidate ep)" "snd ep \<noteq> []" by auto
      with True False show ?thesis
        unfolding process_row_eq
        by (auto simp: row_match_def Let_def d n matched_name_of_def truthy_def candidate_def)
    next
      case nc: False
      with False d n show ?thesis
        unfolding process_row_eq
        by (auto simp: row_match_def Let_def)
    qed
  qed
qed

theorem selection_policy_witness:
  "snd (direct_id_match [(''001'', [(''Name'', ''Jane Doe'')])] ''Jane Doe'' ''001'') = 1 \<and>
   snd (find_best_match ''Jane Doe'' [(''001'', [(''Name'', ''Jane Doe'')])]) = 1 \<and>
   (\<exists>st' rec.
      process_row [(''001'', [(''Name'', ''Jane Doe'')])] ''2024-01-01'' '''' 1
        [(''EmployeeID'', ''001''), (''Name'', ''Jane Doe'')]
        \<lparr>matched_employees = {}, processed_records = [], extra_names = [], items = []\<rparr> = Inr st' \<and>
      processed_records st' = [rec] \<and> pr_match_type rec = ID \<and>
      pr_matched_emp_id rec = ''001'' \<and> pr_confidence rec = 1 \<and> pr_valid rec)"
proof -
  let ?ps = "[(''001'', [(''Name'', ''Jane Doe'')])]"
  let ?r = "[(''EmployeeID'', ''001''), (''Name'', ''Jane Doe'')]"
  let ?st = "\<lparr>matched_employees = {}, processed_records = [], extra_names = [], items = []\<rparr>"
  have t: "textract_name_of ?r = ''Jane Doe''" and e: "emp_id_of ?r = ''001''"
    by code_simp+
  have d: "snd (direct_id_match ?ps ''Jane Doe'' ''001'') = 1"
    by code_simp
  have n: "snd (find_best_match ''Jane Doe'' ?ps) = 1"
    by code_simp
  from selection_policy [of ?ps "''2024-01-01''" "''''" 1 ?r ?st]
  obtain st' rec where
    s: "process_row ?ps ''2024-01-01'' '''' 1 ?r ?st = Inr st'"
       "processed_records st' = [rec]"
       "pr_match_type rec = ID" "pr_matched_emp_id rec = ''001''" "pr_confidence rec = 1"
    unfolding Let_def t e d n by auto
  from s(1,2) have "pr_valid rec = (pr_match_type rec \<noteq> NONE \<and> 9 / 10 \<le> pr_confidence rec)"
    unfolding process_row_eq by auto
  with s d n show ?thesis by auto
qed

text \<open>
  Claim C4, as stated, fails: for a row classified \<open>NONE\<close> the matched identifier is
  not the raw identifier of the row but the normalised one.  A row whose \<open>EmployeeID\<close>
  cell reads \<open>0 01\<close>, against an empty roster, is recorded under \<open>001\<close>.
\<close>

theorem none_identifier_not_raw_counterexample:
  "map_of [(''EmployeeID'', ''0 01'')] ''EmployeeID'' = Some ''0 01'' \<and>
   (\<exists>st'. process_row [] ''2024-01-01'' '''' 1 [(''EmployeeID'', ''0 01'')]
            \<lparr>matched_employees = {}, processed_records = [], extra_names = [], items = []\<rparr> =
          Inr st' \<and>
      map pr_match_type (processed_records st') = [NONE] \<and>
      map pr_matched_emp_id (processed_records st') = [''001''])"
proof -
  have "row_match [] [(''EmployeeID'', ''0 01'')] =
      \<lparr>matched_profile = None, confidence = 0, match_type = NONE, matched_emp_id = ''001''\<rparr>"
    by code_simp
  then show ?thesis
    unfolding process_row_eq by simp
qed

text \<open>
  Claim C4, amended.  For every row classified \<open>NONE\<close> the matched identifier is the
  row's normalised identifier (all spaces removed, then trimmed), or \<open>UNKNOWN\<close> when
  the normalised identifier is empty, and the row's trimmed name is appended to
  \<open>extra_names\<close> exactly when it is not empty; a row of another match type leaves
  \<open>extra_names\<close> as it was.  A row whose name and identifier are both empty after
  normalisation is classified \<open>NONE\<close> under \<open>UNKNOWN\<close> and adds no extra name.
\<close>

theorem none_defaults:
  "\<exists>st' rec. process_row ps sheet_date sheet_id i r st = Inr st' \<and>
      processed_records st' = processed_records st @ [rec] \<and>
      (if pr_match_type rec = NONE then
         pr_matched_emp_id rec = (if emp_id_of r = [] then ''UNKNOWN'' else emp_id_of r) \<and>
         extra_names st' =
           (if textract_name_of r = [] then extra_names st
            else extra_names st @ [textract_name_of r])
       else extra_names st' = extra_names st) \<and>
      (textract_name_of r = [] \<and> emp_id_of r = [] \<longrightarrow>
         pr_match_type rec = NONE \<and> pr_matched_emp_id rec = ''UNKNOWN'' \<and>
         extra_names st' = extra_names st)"
proof -
  let ?t = "textract_name_of r" and ?e = "emp_id_of r"
  obtain dm dc where d: "direct_id_match ps ?t ?e = (dm, dc)"
    by (cases "direct_id_match ps ?t ?e") auto
  obtain nm nc where n: "find_best_match ?t ps = (nm, nc)"
    by (cases "find_best_match ?t ps") auto
  have none: "match_type (row_match ps r) = NONE \<Longrightarrow>
      matched_emp_id (row_match ps r) = (if ?e = [] then ''UNKNOWN'' else ?e)"
    by (auto simp: row_match_def Let_def split: if_splits)
  have blank: "row_match ps r =
      \<lparr>matched_profile = None, confidence = 0, match_type = NONE, matched_emp_id = ''UNKNOWN''\<rparr>"
    if "?t = []" and "?e = []"
  proof -
    have "find_best_match [] ps = (None, 0)"
      by (simp add: find_best_match_def strip_def)
    moreover have "direct_id_match ps [] [] = (None, 0)"
      by (simp add: direct_id_match_def)
    ultimately show ?thesis
      using that by (simp add: row_match_def Let_def)
  qed
  show ?thesis
    unfolding process_row_eq using none blank by auto
qed

theorem none_defaults_witness:
  "textract_name_of [(''RoomNumber'', ''12'')] = [] \<and> emp_id_of [(''RoomNumber'', ''12'')] = [] \<and>
   (\<exists>st' rec. process_row [(''002'', [(''Name'', ''John Smith'')])] ''2024-01-01'' '''' 1
        [(''RoomNumber'', ''12'')]
        \<lparr>matched_employees = {}, processed_records = [], extra_names = [], items = []\<rparr> = Inr st' \<and>
      processed_records st' = [rec] \<and>
      pr_match_type rec = NONE \<and> pr_matched_emp_id rec = ''UNKNOWN'' \<and> extra_names st' = [])"
proof -
  let ?ps = "[(''002'', [(''Name'', ''John Smith'')])]"
  let ?r = "[(''RoomNumber'', ''12'')]"
  let ?st = "\<lparr>matched_employees = {}, processed_records = [], extra_names = [], items = []\<rparr>"
  have t: "textract_name_of ?r = []" and e: "emp_id_of ?r = []"
    by code_simp+
  from none_defaults [of ?ps "''2024-01-01''" "''''" 1 ?r ?st] t e
  show ?thesis by auto
qed

text \<open>
  Claim C9.  For every row the loop body returns normally, and when the row is
  classified \<open>NONE\<close> the confidence it records is exactly 0, in the processed record and
  in the \<open>Validation\<close> of the item, whatever the best similarity of the name search was.
\<close>

theorem none_confidence_zero:
  "\<exists>st' rec it. process_row ps sheet_date sheet_id i r st = Inr st' \<and>
      processed_records st' = processed_records st @ [rec] \<and>
      items st' = items st @ [it] \<and>
      v_matchType (Validation it) = pr_match_type rec \<and>
      (pr_match_type rec = NONE \<longrightarrow>
         pr_confidence rec = 0 \<and> v_confidence (Validation it) = 0)"
proof -
  have "match_type (row_match ps r) = NONE \<Longrightarrow> confidence (row_match ps r) = 0"
    by (auto simp: row_match_def Let_def split: if_splits)
  moreover have "round3 0 = 0"
    by (simp add: round3_def)
  ultimately show ?thesis
    unfolding process_row_eq by auto
qed

theorem none_confidence_zero_witness:
  "snd (find_best_match ''Jo'' [(''002'', [(''Name'', ''John Smith'')])]) = 1 / 3 \<and>
   (\<exists>st' rec it. process_row [(''002'', [(''Name'', ''John Smith'')])] ''2024-01-01'' '''' 1
        [(''Name'', ''Jo'')]
        \<lparr>matched_employees = {}, processed_records = [], extra_names = [], items = []\<rparr> = Inr st' \<and>
      processed_records st' = [rec] \<and> items st' = [it] \<and>
      pr_match_type rec = NONE \<and> pr_confidence rec = 0 \<and> v_confidence (Validation it) = 0)"
proof -
  let ?ps = "[(''002'', [(''Name'', ''John Smith'')])]"
  let ?r = "[(''Name'', ''Jo'')]"
  let ?st = "\<lparr>matched_employees = {}, processed_records = [], extra_names = [], items = []\<rparr>"
  have n: "snd (find_best_match ''Jo'' ?ps) = 1 / 3"
    by code_simp
  have m: "match_type (row_match ?ps ?r) = NONE"
    by code_simp
  from none_confidence_zero [of ?ps "''2024-01-01''" "''''" 1 ?r ?st]
  obtain st' rec it where
    s: "process_row ?ps ''2024-01-01'' '''' 1 ?r ?st = Inr st'"
       "processed_records st' = [rec]" "items st' = [it]"
       "pr_match_type rec = NONE \<longrightarrow> pr_confidence rec = 0 \<and> v_confidence (Validation it) = 0"
    by auto
  from s(1,2) m have "pr_match_type rec = NONE"
    unfolding process_row_eq by auto
  with s n show ?thesis by auto
qed

text \<open>
  The loop over the rows never raises, and every identifier it puts into
  \<open>matched_employees\<close> is a key of the roster.
\<close>

lemma matched_emp_id_in_roster:
  assumes "match_type (row_match ps r) \<noteq> NONE"
  shows "matched_emp_id (row_match ps r) \<in> fst ` set ps"
proof -
  let ?t = "textract_name_of r" and ?e = "emp_id_of r"
  obtain dm dc where d: "direct_id_match ps ?t ?e = (dm, dc)"
    by (cases "direct_id_match ps ?t ?e") auto
  obtain nm nc where n: "find_best_match ?t ps = (nm, nc)"
    by (cases "find_best_match ?t ps") auto
  have dm: "?e \<in> fst ` set ps" if "1 / 2 < dc"
  proof -
    from direct_id_match_cases [of ps ?t ?e] d that
    obtain prof where "map_of ps ?e = Some prof" by auto
    then have "(?e, prof) \<in> set ps" by (rule map_of_SomeD)
    then show ?thesis by force
  qed
  have nm: "\<exists>ep \<in> set ps. nm = Some (candidate ep)" if "1 / 2 < nc"
    using find_best_match_result [of ?t ps] n that by auto
  show ?thesis
  proof (cases "nc \<le> dc \<and> 1 / 2 < dc")
    case True
    then show ?thesis
      using dm by (auto simp: row_match_def Let_def d n)
  next
    case False
    show ?thesis
    proof (cases "1 / 2 < nc")
      case True
      with nm obtain ep where "ep \<in> set ps" "nm = Some (candidate ep)" by auto
      with True False show ?thesis
        by (auto simp: row_match_def Let_def d n candidate_def)
    next
      case nc: False
      with False d n assms show ?thesis
        by (auto simp: row_match_def Let_def)
    qed
  qed
qed

lemma process_rows_total:
  assumes "matched_employees st \<subseteq> fst ` set ps"
  shows "\<exists>st'. process_rows ps sheet_date sheet_id i rows st = Inr st' \<and>
           matched_employees st' \<subseteq> fst ` set ps \<and>
           length (processed_records st') = length (processed_records st) + length rows"
  using assms
proof (induction rows arbitrary: st i)
  case Nil
  then show ?case by simp
next
  case (Cons r rows)
  obtain st1 where
    s1: "process_row ps sheet_date sheet_id i r st = Inr st1"
        "matched_employees st1 =
          (if match_type (row_match ps r) \<noteq> NONE
           then insert (matched_emp_id (row_match ps r)) (matched_employees st)
           else matched_employees st)"
        "length (processed_records st1) = length (processed_records st) + 1"
    unfolding process_row_eq by simp
  have "matched_employees st1 \<subseteq> fst ` set ps"
    using s1(2) Cons.prems matched_emp_id_in_roster [of ps r] by auto
  from Cons.IH [OF this, of "i + 1"] s1(1,3) show ?case
    by auto
qed

text \<open>
  Claim C8.  The overall match percentage never raises: it is 0 for an empty roster, and
  otherwise the number of matched identifiers divided by the number of roster entries,
  times 100.  In \<open>process\<close> the loop over the rows returns normally for every table and
  roster, the percentage of the summary is that figure for the set of matched
  identifiers, and every matched identifier is a key of the roster.
\<close>

theorem overall_match_pct_total:
  "overall_match_pct matched ps =
     Inr (if ps = [] then 0 else of_nat (card matched) / of_nat (length ps) * 100) \<and>
   overall_match_pct matched [] = Inr 0 \<and>
   (\<exists>st sm. process blocks ps sheet_date sheet_id = Inr (st, sm) \<and>
      matched_employees st \<subseteq> fst ` set ps \<and>
      match_pct sm =
        (if ps = [] then 0
         else of_nat (card (matched_employees st)) / of_nat (length ps) * 100))"
proof -
  have pct: "overall_match_pct m ps =
      Inr (if ps = [] then 0 else of_nat (card m) / of_nat (length ps) * 100)" for m
    by (simp add: overall_match_pct_def truediv_def)
  have "matched_employees
          \<lparr>matched_employees = {}, processed_records = [], extra_names = [], items = []\<rparr>
        \<subseteq> fst ` set ps"
    by simp
  from process_rows_total [OF this, of sheet_date sheet_id 1 "parse_first_table blocks"]
  obtain st where
    st: "process_rows ps sheet_date sheet_id 1 (parse_first_table blocks)
           \<lparr>matched_employees = {}, processed_records = [], extra_names = [], items = []\<rparr> = Inr st"
        "matched_employees st \<subseteq> fst ` set ps"
    by blast
  have "\<exists>sm. process blocks ps sheet_date sheet_id = Inr (st, sm) \<and>
      match_pct sm =
        (if ps = [] then 0
         else of_nat (card (matched_employees st)) / of_nat (length ps) * 100)"
    unfolding process_def Let_def st(1) pct sum.case by simp
  with st(2) pct show ?thesis
    by (auto simp: overall_match_pct_def)
qed

theorem overall_match_pct_total_witness:
  "overall_match_pct {''001''} [] = Inr 0 \<and>
   overall_match_pct {''001''} [(''001'', [(''Name'', ''Jane Doe'')]), (''002'', [(''Name'', ''John Smith'')])]
     = Inr 50"
proof -
  have "card {''001''} = 1" by simp
  with overall_match_pct_total [of "{''001''}" "[]"]
       overall_match_pct_total [of "{''001''}"
         "[(''001'', [(''Name'', ''Jane Doe'')]), (''002'', [(''Name'', ''John Smith'')])]"]
  show ?thesis by simp
qed

section \<open>Properties of the table reconstructor\<close>

text \<open>Lower-casing leaves no capital ASCII letter, so no fallback key equals a canonical key.\<close>

lemma lower_char_not_upper:
  "\<not> (65 \<le> (of_char (lower_char c) :: nat) \<and> (of_char (lower_char c) :: nat) \<le> 90)"
proof -
  have "(of_char c :: nat) < 256"
    by (rule nat_of_char_less_256)
  then show ?thesis
    by (auto simp: lower_char_def Let_def)
qed

lemma lower_no_upper:
  assumes "c \<in> set (lower s)"
  shows "\<not> (65 \<le> (of_char c :: nat) \<and> (of_char c :: nat) \<le> 90)"
  using assms lower_char_not_upper by (auto simp: lower_def)

lemma remove_spaces_lower_neq:
  assumes "c \<in> set key" and "65 \<le> (of_char c :: nat)" and "(of_char c :: nat) \<le> 90"
  shows "remove_spaces (lower s) \<noteq> key"
proof
  assume "remove_spaces (lower s) = key"
  with assms(1) have "c \<in> set (lower s)"
    by (auto simp: remove_spaces_def)
  from lower_no_upper [OF this] assms(2,3) show False by simp
qed

lemma fallback_not_canonical:
  "remove_spaces (lower s) \<noteq> ''Name''"
  "remove_spaces (lower s) \<noteq> ''EmployeeID''"
  "remove_spaces (lower s) \<noteq> ''RoomNumber''"
  "remove_spaces (lower s) \<noteq> ''Wake''"
  "remove_spaces (lower s) \<noteq> ''Signature''"
proof -
  show "remove_spaces (lower s) \<noteq> ''Name''"
    by (rule remove_spaces_lower_neq [of "CHR ''N''"]) simp_all
  show "remove_spaces (lower s) \<noteq> ''EmployeeID''"
    by (rule remove_spaces_lower_neq [of "CHR ''E''"]) simp_all
  show "remove_spaces (lower s) \<noteq> ''RoomNumber''"
    by (rule remove_spaces_lower_neq [of "CHR ''R''"]) simp_all
  show "remove_spaces (lower s) \<noteq> ''Wake''"
    by (rule remove_spaces_lower_neq [of "CHR ''W''"]) simp_all
  show "remove_spaces (lower s) \<noteq> ''Signature''"
    by (rule remove_spaces_lower_neq [of "CHR ''S''"]) simp_all
qed

text \<open>
  Claim C6.  The header text is classified after lower-casing, by the tests in the
  order name, employee with id, room, wake, sign.  So the key is \<open>Name\<close> exactly when the
  text contains \<open>name\<close>; it is \<open>EmployeeID\<close> exactly when the text contains \<open>employee\<close>
  and \<open>id\<close> and does not contain \<open>name\<close>; and so on down the chain.  A header that
  contains both \<open>employee\<close> and \<open>name\<close> is classified \<open>Name\<close>, with or without \<open>id\<close>; in
  particular \<open>Employee Name\<close> is.
\<close>

theorem header_priority_order:
  "(classify_header (lower s) = ''Name'' \<longleftrightarrow> contains ''name'' (lower s)) \<and>
   (classify_header (lower s) = ''EmployeeID'' \<longleftrightarrow>
      \<not> contains ''name'' (lower s) \<and>
      contains ''employee'' (lower s) \<and> contains ''id'' (lower s)) \<and>
   (classify_header (lower s) = ''RoomNumber'' \<longleftrightarrow>
      \<not> contains ''name'' (lower s) \<and>
      \<not> (contains ''employee'' (lower s) \<and> contains ''id'' (lower s)) \<and>
      contains ''room'' (lower s)) \<and>
   (classify_header (lower s) = ''Wake'' \<longleftrightarrow>
      \<not> contains ''name'' (lower s) \<and>
      \<not> (contains ''employee'' (lower s) \<and> contains ''id'' (lower s)) \<and>
      \<not> contains ''room'' (lower s) \<and> contains ''wake'' (lower s)) \<and>
   (classify_header (lower s) = ''Signature'' \<longleftrightarrow>
      \<not> contains ''name'' (lower s) \<and>
      \<not> (contains ''employee'' (lower s) \<and> contains ''id'' (lower s)) \<and>
      \<not> contains ''room'' (lower s) \<and> \<not> contains ''wake'' (lower s) \<and>
      contains ''sign'' (lower s)) \<and>
   (contains ''employee'' (lower s) \<and> contains ''name'' (lower s) \<longrightarrow>
      classify_header (lower s) = ''Name'') \<and>
   (classify_header (lower s) = ''EmployeeID'' \<longrightarrow> contains ''id'' (lower s)) \<and>
   classify_header (lower (strip ''Employee Name'')) = ''Name''"
proof -
  have "classify_header (lower (strip ''Employee Name'')) = ''Name''"
    by code_simp
  then show ?thesis
    using fallback_not_canonical [of s]
    by (simp add: classify_header_def)
qed

theorem header_priority_order_witness:
  "contains ''employee'' (lower ''Employee Name ID'') \<and>
   contains ''name'' (lower ''Employee Name ID'') \<and>
   contains ''id'' (lower ''Employee Name ID'') \<and>
   classify_header (lower ''Employee Name ID'') = ''Name'' \<and>
   classify_header (lower ''Employee ID'') = ''EmployeeID'' \<and>
   contains ''id'' (lower ''Employee ID'')"
proof -
  have c: "contains ''employee'' (lower ''Employee Name ID'')"
      "contains ''name'' (lower ''Employee Name ID'')"
      "contains ''id'' (lower ''Employee Name ID'')"
      "\<not> contains ''name'' (lower ''Employee ID'')"
      "contains ''employee'' (lower ''Employee ID'')"
      "contains ''id'' (lower ''Employee ID'')"
    by code_simp+
  with header_priority_order [of "''Employee Name ID''"] header_priority_order [of "''Employee ID''"]
  show ?thesis by simp
qed

text \<open>Blocks for the examples: a word, a cell with its child ids, a table with its child ids.\<close>

definition word_block :: "string \<Rightarrow> string \<Rightarrow> block" where
  "word_block i t =
     \<lparr>blk_Id = Some i, BlockType = Some ''WORD'', Relationships = [], RowIndex = None,
      ColumnIndex = None, Text = Some t, SelectionStatus = None\<rparr>"

definition cell_block :: "string \<Rightarrow> int \<Rightarrow> int \<Rightarrow> string list \<Rightarrow> block" where
  "cell_block i r c ids =
     \<lparr>blk_Id = Some i, BlockType = Some ''CELL'',
      Relationships = [\<lparr>rel_Type = Some ''CHILD'', rel_Ids = ids\<rparr>], RowIndex = Some r,
      ColumnIndex = Some c, Text = None, SelectionStatus = None\<rparr>"

definition table_block :: "string \<Rightarrow> string list \<Rightarrow> block" where
  "table_block i ids =
     \<lparr>blk_Id = Some i, BlockType = Some ''TABLE'',
      Relationships = [\<lparr>rel_Type = Some ''CHILD'', rel_Ids = ids\<rparr>], RowIndex = None,
      ColumnIndex = None, Text = None, SelectionStatus = None\<rparr>"

text \<open>The row dictionary built for row \<open>r\<close> under a header.\<close>

definition row_of :: "(int \<times> int \<rightharpoonup> string) \<Rightarrow> string list \<Rightarrow> int \<Rightarrow> (string \<times> string) list" where
  "row_of cells header r = fst (build_row cells r (zip [1..int (length header)] header) ([], True))"

lemma build_row_flag:
  "snd (build_row cells r pairs (row, e)) =
     (e \<and> (\<forall>ci \<in> fst ` set pairs. cell_val cells r ci = []))"
proof (induction pairs arbitrary: row e)
  case Nil
  then show ?case by simp
next
  case (Cons p pairs)
  obtain ci key where p: "p = (ci, key)" by (cases p) auto
  show ?case
    unfolding p by (simp add: Let_def Cons.IH)
qed

lemma enumerate_header_indices:
  "fst ` set (zip [1..int (length header)] header) = {1..int (length header)}"
proof -
  have "length [1..int (length header)] = length header"
    by simp
  then have m: "map fst (zip [1..int (length header)] header) = [1..int (length header)]"
    by (rule map_fst_zip)
  have a: "set (map fst (zip [1..int (length header)] header)) =
      fst ` set (zip [1..int (length header)] header)"
    by (rule set_map)
  have b: "set [1..int (length header)] = {1..int (length header)}"
    by (rule set_upto)
  from a b show ?thesis
    unfolding m by (rule trans [OF sym])
qed

lemma data_rows_filter:
  "data_rows cells header rs out_rows =
     out_rows @ map (row_of cells header)
       (filter (\<lambda>r. \<exists>ci \<in> {1..int (length header)}. cell_val cells r ci \<noteq> []) rs)"
proof (induction rs arbitrary: out_rows)
  case Nil
  then show ?case by simp
next
  case (Cons r rs)
  obtain row e where
    b: "build_row cells r (zip [1..int (length header)] header) ([], True) = (row, e)"
    by (cases "build_row cells r (zip [1..int (length header)] header) ([], True)") auto
  have e: "e = (\<forall>ci \<in> {1..int (length header)}. cell_val cells r ci = [])"
    using build_row_flag [of cells r "zip [1..int (length header)] header" "[]" True] b
    by (simp add: enumerate_header_indices)
  have row: "row_of cells header r = row"
    by (simp add: row_of_def b)
  show ?case
    using Cons.IH e row by (auto simp: b)
qed

lemma length_header_of: "int (length (header_of cells cmax)) = max 0 cmax"
  by (simp add: header_of_def)

text \<open>
  Claim C7, as stated, fails: a row can be emitted although every value of its mapping
  is empty.  With the headers \<open>Name\<close> and \<open>Full Name\<close>, which both give the key
  \<open>Name\<close>, and a data row \<open>Bob\<close> in the first column only, the second column overwrites
  the first, and the row \<open>{Name: ""}\<close> is emitted.
\<close>

theorem all_empty_row_emitted_counterexample:
  "parse_first_table
     [table_block ''t'' [''h1'', ''h2'', ''d1''],
      cell_block ''h1'' 1 1 [''w1''], cell_block ''h2'' 1 2 [''w2'', ''w1''],
      cell_block ''d1'' 2 1 [''w3''],
      word_block ''w1'' ''Name'', word_block ''w2'' ''Full'', word_block ''w3'' ''Bob'']
   = [[(''Name'', '''')]]"
  by code_simp

text \<open>
  Claim C7, amended.  A data row (row index 2 to \<open>rmax\<close>) whose cell texts in the columns
  1 to \<open>cmax\<close> are all empty is not emitted: the rows emitted are, in order, the row
  dictionaries of exactly those rows that have a non-empty cell text in one of these
  columns.  \<open>parse_first_table\<close> is a function of the blocks alone, so the same input gives
  the same sequence.
\<close>

theorem emitted_rows:
  "parse_first_table blocks =
     (case find (\<lambda>blk. BlockType blk = Some ''TABLE'') blocks of
        None \<Rightarrow> []
      | Some table_blk \<Rightarrow>
          (case table_cells blocks table_blk of
             (cells, rmax, cmax) \<Rightarrow>
               map (row_of cells (header_of cells cmax))
                 (filter (\<lambda>r. \<exists>ci \<in> {1..cmax}. cell_val cells r ci \<noteq> []) [2..rmax])))"
proof -
  have h: "{1..int (length (header_of cells cmax))} = {1..cmax}" for cells cmax
    by (auto simp: length_header_of)
  show ?thesis
    unfolding parse_first_table_def data_rows_filter h append_Nil by (rule refl)
qed

theorem emitted_rows_witness:
  "parse_first_table
     [table_block ''t'' [''h1'', ''a1'', ''b1'', ''c1''],
      cell_block ''h1'' 1 1 [''w1''], cell_block ''a1'' 2 1 [''w2''],
      cell_block ''b1'' 3 1 [], cell_block ''c1'' 4 1 [''w3''],
      word_block ''w1'' ''Name'', word_block ''w2'' ''Ann'', word_block ''w3'' ''Bob'']
   = [[(''Name'', ''Ann'')], [(''Name'', ''Bob'')]]"
proof -
  let ?blocks = "[table_block ''t'' [''h1'', ''a1'', ''b1'', ''c1''],
      cell_block ''h1'' 1 1 [''w1''], cell_block ''a1'' 2 1 [''w2''],
      cell_block ''b1'' 3 1 [], cell_block ''c1'' 4 1 [''w3''],
      word_block ''w1'' ''Name'', word_block ''w2'' ''Ann'', word_block ''w3'' ''Bob'']"
  have "(case find (\<lambda>blk. BlockType blk = Some ''TABLE'') ?blocks of
        None \<Rightarrow> []
      | Some table_blk \<Rightarrow>
          (case table_cells ?blocks table_blk of
             (cells, rmax, cmax) \<Rightarrow>
               map (row_of cells (header_of cells cmax))
                 (filter (\<lambda>r. \<exists>ci \<in> {1..cmax}. cell_val cells r ci \<noteq> []) [2..rmax])))
      = [[(''Name'', ''Ann'')], [(''Name'', ''Bob'')]]"
    by code_simp
  with emitted_rows [of ?blocks] show ?thesis by simp
qed

text \<open>The placeholder \<open>Col<c>\<close> of an absent header cell, once trimmed and lower-cased.\<close>

lemma str_nat_digits:
  "str_nat n \<noteq> [] \<and> (\<forall>c \<in> set (str_nat n). 48 \<le> (of_char c :: nat) \<and> (of_char c :: nat) \<le> 57)"
proof (induction n rule: str_nat.induct)
  case (1 n)
  show ?case
  proof (cases "n < 10")
    case True
    then show ?thesis
      by (subst str_nat.simps, subst (2) str_nat.simps) simp
  next
    case False
    have "n mod 10 < 10" by simp
    then have "(48 + n mod 10) mod 256 = 48 + n mod 10" by simp
    with False "1.IH" show ?thesis
      by (subst str_nat.simps, subst (2) str_nat.simps) auto
  qed
qed

lemma digit_not_space:
  assumes "48 \<le> (of_char c :: nat)" and "(of_char c :: nat) \<le> 57"
  shows "\<not> isspace c" and "lower_char c = c" and "c \<noteq> CHR '' ''"
  using assms by (auto simp: isspace_def lower_char_def Let_def)

lemma strip_no_edge_space:
  assumes "s \<noteq> []" and "\<not> isspace (hd s)" and "\<not> isspace (last s)"
  shows "strip s = s"
proof -
  from assms(1,2) have a: "dropWhile isspace s = s"
    by (cases s) auto
  from assms(1,3) have "dropWhile isspace (rev s) = rev s"
    by (cases "rev s") (auto simp: hd_rev [symmetric])
  with a show ?thesis by (simp add: strip_def)
qed

lemma contains_set: "contains needle hay \<Longrightarrow> set needle \<subseteq> set hay"
proof (induction hay)
  case Nil
  then show ?case by simp
next
  case (Cons h hs)
  have sw: "starts_with n xs \<Longrightarrow> set n \<subseteq> set xs" for n xs
    by (induction n xs rule: starts_with.induct) auto
  from Cons show ?case
    using sw [of needle "h # hs"] by auto
qed

lemma placeholder_header:
  assumes "0 \<le> c"
  shows "lower (strip (''Col'' @ str_int c)) = ''col'' @ str_int c"
    and "classify_header (''col'' @ str_int c) = ''col'' @ str_int c"
proof -
  let ?ds = "str_nat (nat c)"
  have s: "str_int c = ?ds"
    using assms by (simp add: str_int_def)
  have ne: "?ds \<noteq> []"
    and dig: "\<forall>d \<in> set ?ds. 48 \<le> (of_char d :: nat) \<and> (of_char d :: nat) \<le> 57"
    using str_nat_digits [of "nat c"] by auto
  have "last ?ds \<in> set ?ds" using ne by simp
  with dig have "\<not> isspace (last ?ds)"
    using digit_not_space(1) by blast
  then have "\<not> isspace (last (''Col'' @ ?ds))"
    using ne by simp
  moreover have "\<not> isspace (hd (''Col'' @ ?ds))"
    by (simp add: isspace_def)
  ultimately have "strip (''Col'' @ ?ds) = ''Col'' @ ?ds"
    by (intro strip_no_edge_space) simp_all
  moreover have "map lower_char ?ds = ?ds"
    using dig digit_not_space(2) by (simp add: map_idI)
  moreover have "lower ''Col'' = ''col''"
    by code_simp
  ultimately show "lower (strip (''Col'' @ str_int c)) = ''col'' @ str_int c"
    by (simp add: s lower_def)
  have notin: "x \<notin> set (''col'' @ ?ds)"
    if "\<not> (48 \<le> (of_char x :: nat) \<and> (of_char x :: nat) \<le> 57)" and "x \<notin> set ''col''" for x
    using that dig by auto
  have n: "\<not> contains ''name'' (''col'' @ ?ds)"
    using contains_set [of "''name''" "''col'' @ ?ds"] notin [of "CHR ''n''"] by auto
  have i: "\<not> contains ''id'' (''col'' @ ?ds)"
    using contains_set [of "''id''" "''col'' @ ?ds"] notin [of "CHR ''i''"] by auto
  have r: "\<not> contains ''room'' (''col'' @ ?ds)"
    using contains_set [of "''room''" "''col'' @ ?ds"] notin [of "CHR ''r''"] by auto
  have w: "\<not> contains ''wake'' (''col'' @ ?ds)"
    using contains_set [of "''wake''" "''col'' @ ?ds"] notin [of "CHR ''w''"] by auto
  have g: "\<not> contains ''sign'' (''col'' @ ?ds)"
    using contains_set [of "''sign''" "''col'' @ ?ds"] notin [of "CHR ''s''"] by auto
  have "filter (\<lambda>x. x \<noteq> CHR '' '') ?ds = ?ds"
    using dig digit_not_space(3) by (auto intro: filter_True)
  then have "remove_spaces (''col'' @ ?ds) = ''col'' @ ?ds"
    by (simp add: remove_spaces_def)
  with n i r w g show "classify_header (''col'' @ str_int c) = ''col'' @ str_int c"
    unfolding classify_header_def s by simp
qed

text \<open>
  Claim C5, as stated, fails: for an absent header cell the text taken is not the empty
  string but the placeholder \<open>Col<c>\<close>.  In a table with no cell at row 1, column 1 the
  first column gets the key \<open>col1\<close>.
\<close>

theorem absent_header_not_empty_counterexample:
  "(case table_cells
           [table_block ''t'' [''h2'', ''d1'', ''d2''],
            cell_block ''h2'' 1 2 [''w1''], cell_block ''d1'' 2 1 [''w2''],
            cell_block ''d2'' 2 2 [''w3''],
            word_block ''w1'' ''Name'', word_block ''w2'' ''x'', word_block ''w3'' ''Bob'']
           (table_block ''t'' [''h2'', ''d1'', ''d2'']) of
      (cells, rmax, cmax) \<Rightarrow>
        cells (1, 1) = None \<and> cmax = 2 \<and> header_raw cells 1 = ''col1'' \<and>
        header_of cells cmax = [''col1'', ''Name'']) \<and>
   parse_first_table
     [table_block ''t'' [''h2'', ''d1'', ''d2''],
      cell_block ''h2'' 1 2 [''w1''], cell_block ''d1'' 2 1 [''w2''],
      cell_block ''d2'' 2 2 [''w3''],
      word_block ''w1'' ''Name'', word_block ''w2'' ''x'', word_block ''w3'' ''Bob'']
   = [[(''col1'', ''x''), (''Name'', ''Bob'')]]"
  by code_simp

text \<open>
  Claim C5, amended.  The header has one key for each column 1 to \<open>cmax\<close>, in order.
  The key of column \<open>c\<close> classifies the text of the cell at row 1, trimmed and
  lower-cased; when that cell is absent or its text is empty, the text classified is the
  placeholder \<open>col<c>\<close> (\<open>Col\<close> followed by the column number in decimal, lower-cased),
  which is its own key.  A text that no test recognises falls back to itself with every
  space character removed.
\<close>

theorem header_from_row_one:
  "length (header_of cells cmax) = nat cmax \<and>
   (\<forall>c. 1 \<le> c \<and> c \<le> cmax \<longrightarrow>
      header_of cells cmax ! nat (c - 1) = classify_header (header_raw cells c) \<and>
      header_raw cells c =
        (case cells (1, c) of
           None \<Rightarrow> ''col'' @ str_int c
         | Some t \<Rightarrow> if t = [] then ''col'' @ str_int c else lower (strip t)) \<and>
      (cells (1, c) = None \<or> cells (1, c) = Some [] \<longrightarrow>
         header_of cells cmax ! nat (c - 1) = ''col'' @ str_int c)) \<and>
   (\<not> contains ''name'' h \<and> \<not> (contains ''employee'' h \<and> contains ''id'' h) \<and>
    \<not> contains ''room'' h \<and> \<not> contains ''wake'' h \<and> \<not> contains ''sign'' h \<longrightarrow>
      classify_header h = remove_spaces h)"
proof -
  have len: "length (header_of cells cmax) = nat cmax"
    by (simp add: header_of_def)
  have col: "header_of cells cmax ! nat (c - 1) = classify_header (header_raw cells c) \<and>
      header_raw cells c =
        (case cells (1, c) of
           None \<Rightarrow> ''col'' @ str_int c
         | Some t \<Rightarrow> if t = [] then ''col'' @ str_int c else lower (strip t)) \<and>
      (cells (1, c) = None \<or> cells (1, c) = Some [] \<longrightarrow>
         header_of cells cmax ! nat (c - 1) = ''col'' @ str_int c)"
    if c: "1 \<le> c" "c \<le> cmax" for c
  proof -
    have "1 + int (nat (c - 1)) \<le> cmax" using c by simp
    then have "[1..cmax] ! nat (c - 1) = 1 + int (nat (c - 1))"
      by (rule nth_upto)
    then have nth: "[1..cmax] ! nat (c - 1) = c" using c by simp
    have "nat (c - 1) < length [1..cmax]" using c by simp
    then have k: "header_of cells cmax ! nat (c - 1) = classify_header (header_raw cells c)"
      by (simp add: header_of_def nth)
    have p: "lower (strip (''Col'' @ str_int c)) = ''col'' @ str_int c"
      and q: "classify_header (''col'' @ str_int c) = ''col'' @ str_int c"
      using placeholder_header [of c] c by simp_all
    have raw: "header_raw cells c =
        (case cells (1, c) of
           None \<Rightarrow> ''col'' @ str_int c
         | Some t \<Rightarrow> if t = [] then ''col'' @ str_int c else lower (strip t))"
      using p by (simp add: header_raw_def split: option.splits)
    from k raw q show ?thesis by auto
  qed
  have "classify_header h = remove_spaces h"
    if "\<not> contains ''name'' h" "\<not> (contains ''employee'' h \<and> contains ''id'' h)"
       "\<not> contains ''room'' h" "\<not> contains ''wake'' h" "\<not> contains ''sign'' h"
    using that by (auto simp: classify_header_def)
  with len col show ?thesis by blast
qed

theorem header_from_row_one_witness:
  "(case table_cells
           [table_block ''t'' [''h2'', ''d1'', ''d2''],
            cell_block ''h2'' 1 2 [''w1''], cell_block ''d1'' 2 1 [''w2''],
            cell_block ''d2'' 2 2 [''w3''],
            word_block ''w1'' ''Name'', word_block ''w2'' ''x'', word_block ''w3'' ''Bob'']
           (table_block ''t'' [''h2'', ''d1'', ''d2'']) of
      (cells, rmax, cmax) \<Rightarrow>
        cells (1, 1) = None \<and> cmax = 2 \<and>
        header_of cells cmax ! nat (1 - 1) = ''col'' @ str_int 1) \<and>
   classify_header ''dept code'' = remove_spaces ''dept code''"
proof -
  let ?blocks = "[table_block ''t'' [''h2'', ''d1'', ''d2''],
            cell_block ''h2'' 1 2 [''w1''], cell_block ''d1'' 2 1 [''w2''],
            cell_block ''d2'' 2 2 [''w3''],
            word_block ''w1'' ''Name'', word_block ''w2'' ''x'', word_block ''w3'' ''Bob'']"
  obtain cells rmax cmax where
    t: "table_cells ?blocks (table_block ''t'' [''h2'', ''d1'', ''d2'']) = (cells, rmax, cmax)"
    by (cases "table_cells ?blocks (table_block ''t'' [''h2'', ''d1'', ''d2''])") auto
  have "(case table_cells ?blocks (table_block ''t'' [''h2'', ''d1'', ''d2'']) of
      (cells, rmax, cmax) \<Rightarrow> cells (1, 1) = None \<and> cmax = 2)"
    by code_simp
  with t have c: "cells (1, 1) = None" "cmax = 2" by auto
  have n: "\<not> contains ''name'' ''dept code''"
      "\<not> contains ''employee'' ''dept code''"
      "\<not> contains ''room'' ''dept code''" "\<not> contains ''wake'' ''dept code''"
      "\<not> contains ''sign'' ''dept code''"
    by code_simp+
  from header_from_row_one [of cells cmax "''dept code''"] c n
  have "header_of cells cmax ! nat (1 - 1) = ''col'' @ str_int 1"
    and "classify_header ''dept code'' = remove_spaces ''dept code''"
    by auto
  with t c show ?thesis by simp
qed

section \<open>Properties of the similarity\<close>

text \<open>
  The number of matches is the total size of the blocks that the queue loop finds:
  sorting, merging adjacent blocks and the final sentinel of size 0 leave the total
  unchanged.
\<close>

definition size_sum :: "(nat \<times> nat \<times> nat) list \<Rightarrow> nat" where
  "size_sum blocks = sum_list (map (\<lambda>(i, j, k). k) blocks)"

lemma size_sum_simps [simp]:
  "size_sum [] = 0"
  "size_sum ((i, j, k) # blocks) = k + size_sum blocks"
  "size_sum (xs @ ys) = size_sum xs + size_sum ys"
  by (simp_all add: size_sum_def)

lemma size_sum_insort: "size_sum (insort x xs) = size_sum [x] + size_sum xs"
  by (induction xs) (auto simp: size_sum_def)

lemma size_sum_sort: "size_sum (sort xs) = size_sum xs"
proof (induction xs)
  case Nil
  then show ?case by simp
next
  case (Cons x xs)
  have "size_sum (sort (x # xs)) = size_sum [x] + size_sum (sort xs)"
    by (simp add: size_sum_insort)
  with Cons show ?case by (cases x) simp
qed

lemma collapse_sum:
  assumes "collapse blocks (i1, j1, k1) non_adjacent = ((i', j', k'), non_adjacent')"
  shows "k' + size_sum non_adjacent' = k1 + size_sum non_adjacent + size_sum blocks"
  using assms
proof (induction blocks "(i1, j1, k1)" non_adjacent arbitrary: i1 j1 k1 rule: collapse.induct)
  case (1 i1 j1 k1 non_adjacent)
  then show ?case by simp
next
  case (2 i2 j2 k2 rest i1 j1 k1 non_adjacent)
  show ?case
  proof (cases "i1 + k1 = i2 \<and> j1 + k1 = j2")
    case True
    with "2.prems" have "collapse rest (i1, j1, k1 + k2) non_adjacent = ((i', j', k'), non_adjacent')"
      by simp
    from "2.hyps"(1) [OF True this] show ?thesis by simp
  next
    case False
    with "2.prems" have "collapse rest (i2, j2, k2)
        (if k1 \<noteq> 0 then non_adjacent @ [(i1, j1, k1)] else non_adjacent) =
        ((i', j', k'), non_adjacent')"
      by simp
    from "2.hyps"(2) [OF False this] show ?thesis by simp
  qed
qed

lemma matches_blocks_loop:
  "size_sum (get_matching_blocks a b) = size_sum (blocks_loop a b [(0, length a, 0, length b)] [])"
proof -
  let ?mb = "sort (blocks_loop a b [(0, length a, 0, length b)] [])"
  obtain i1 j1 k1 non_adjacent where
    c: "collapse ?mb (0, 0, 0) [] = ((i1, j1, k1), non_adjacent)"
    by (cases "collapse ?mb (0, 0, 0) []") auto
  from collapse_sum [OF c] have "k1 + size_sum non_adjacent = size_sum ?mb"
    by simp
  then have "size_sum (get_matching_blocks a b) = size_sum ?mb"
    by (simp add: get_matching_blocks_def Let_def c)
  then show ?thesis by (simp add: size_sum_sort)
qed

text \<open>The blocks found in a queue of windows fit into the windows, on either side.\<close>

definition width_a :: "(nat \<times> nat \<times> nat \<times> nat) list \<Rightarrow> nat" where
  "width_a queue = sum_list (map (\<lambda>(alo, ahi, blo, bhi). ahi - alo) queue)"

definition width_b :: "(nat \<times> nat \<times> nat \<times> nat) list \<Rightarrow> nat" where
  "width_b queue = sum_list (map (\<lambda>(alo, ahi, blo, bhi). bhi - blo) queue)"

lemma blocks_loop_bound:
  "size_sum (blocks_loop a b queue matching_blocks) \<le> size_sum matching_blocks + width_a queue \<and>
   size_sum (blocks_loop a b queue matching_blocks) \<le> size_sum matching_blocks + width_b queue"
proof (induction a b queue matching_blocks rule: blocks_loop.induct)
  case (1 a b matching_blocks)
  then show ?case by (simp add: blocks_loop.simps width_a_def width_b_def)
next
  case (2 a b alo ahi blo bhi queue matching_blocks)
  obtain i j k where f: "find_longest_match a b alo ahi blo bhi = (i, j, k)"
    by (cases "find_longest_match a b alo ahi blo bhi") auto
  show ?case
  proof (cases "k \<noteq> 0")
    case True
    let ?q = "(if i + k < ahi \<and> j + k < bhi then [(i + k, ahi, j + k, bhi)] else []) @
              (if alo < i \<and> blo < j then [(alo, i, blo, j)] else []) @ queue"
    have step: "blocks_loop a b ((alo, ahi, blo, bhi) # queue) matching_blocks =
        blocks_loop a b ?q (matching_blocks @ [(i, j, k)])"
      using True by (simp add: blocks_loop.simps f)
    from find_longest_match_bounds [OF f True]
    have b: "alo \<le> i" "i + k \<le> ahi" "blo \<le> j" "j + k \<le> bhi" by auto
    have wa: "k + width_a ?q \<le> width_a ((alo, ahi, blo, bhi) # queue)"
      using b by (auto simp: width_a_def)
    have wb: "k + width_b ?q \<le> width_b ((alo, ahi, blo, bhi) # queue)"
      using b by (auto simp: width_b_def)
    from "2.IH"(1) [OF f [symmetric] refl True]
    have "size_sum (blocks_loop a b ?q (matching_blocks @ [(i, j, k)]))
            \<le> size_sum (matching_blocks @ [(i, j, k)]) + width_a ?q"
      and "size_sum (blocks_loop a b ?q (matching_blocks @ [(i, j, k)]))
            \<le> size_sum (matching_blocks @ [(i, j, k)]) + width_b ?q"
      by auto
    with wa wb show ?thesis unfolding step by simp
  next
    case False
    have step: "blocks_loop a b ((alo, ahi, blo, bhi) # queue) matching_blocks =
        blocks_loop a b queue matching_blocks"
      using False by (simp add: blocks_loop.simps f)
    from "2.IH"(2) [OF f [symmetric] refl False]
    show ?thesis unfolding step by (auto simp: width_a_def width_b_def)
  qed
qed

lemma ratio_range: "0 \<le> ratio a b \<and> ratio a b \<le> 1"
proof -
  let ?m = "size_sum (get_matching_blocks a b)"
  from blocks_loop_bound [of a b "[(0, length a, 0, length b)]" "[]"]
  have "?m \<le> length a" and "?m \<le> length b"
    by (simp_all add: matches_blocks_loop width_a_def width_b_def)
  then have "2 * ?m \<le> length a + length b" by simp
  then have "(2 * of_nat ?m :: rat) \<le> of_nat (length a + length b)"
    by (metis of_nat_le_iff of_nat_mult of_nat_numeral)
  then show ?thesis
    by (auto simp: ratio_def calculate_ratio_def Let_def size_sum_def divide_le_eq_1)
qed

text \<open>
  Two equal strings.  \<open>run x i\<close> is the number of consecutive positions up to \<open>i\<close> whose
  character is not popular.  While \<open>find_longest_match\<close> scans \<open>x\<close> against itself from
  0, the best block stays on the diagonal: each entry of \<open>j2len\<close> is bounded by the run at
  its column and at the current row, the diagonal entry is the run itself, and the best
  size is at least every run met so far.
\<close>

definition popular :: "string \<Rightarrow> nat \<Rightarrow> bool" where
  "popular x i = (b2j x (x ! i) = [])"

fun run :: "string \<Rightarrow> nat \<Rightarrow> nat" where
  "run x 0 = (if popular x 0 then 0 else 1)"
| "run x (Suc i) = (if popular x (Suc i) then 0 else run x i + 1)"

lemma run_step: "\<not> popular x j \<Longrightarrow> run x j = (if j = 0 then 1 else run x (j - 1) + 1)"
  by (cases j) auto

lemma run_popular: "popular x j \<Longrightarrow> run x j = 0"
  by (cases j) auto

lemma b2j_positions:
  assumes "i < length x" and "\<not> popular x i"
  shows "i \<in> set (b2j x (x ! i))" and "sorted (b2j x (x ! i))"
    and "\<forall>j \<in> set (b2j x (x ! i)). j < length x \<and> \<not> popular x j"
proof -
  have eq: "b2j x (x ! i) = filter (\<lambda>j. x ! j = x ! i) [0..<length x]"
    using assms(2) by (auto simp: popular_def b2j_def Let_def split: if_splits)
  show "i \<in> set (b2j x (x ! i))"
    using assms(1) by (simp add: eq)
  show "sorted (b2j x (x ! i))"
    unfolding eq by (rule sorted_wrt_filter) simp
  show "\<forall>j \<in> set (b2j x (x ! i)). j < length x \<and> \<not> popular x j"
    using assms(2) by (auto simp: eq popular_def)
qed

definition row_ok :: "string \<Rightarrow> nat \<Rightarrow> nat \<Rightarrow> (nat \<rightharpoonup> nat) \<times> nat \<times> nat \<times> nat \<Rightarrow> bool" where
  "row_ok x i bs0 st =
     (case st of (new, besti, bestj, bestsize) \<Rightarrow>
        besti = bestj \<and> bs0 \<le> bestsize \<and>
        (\<forall>j v. new j = Some v \<longrightarrow> v \<le> run x j \<and> v \<le> run x i))"

definition row_done :: "string \<Rightarrow> nat \<Rightarrow> (nat \<rightharpoonup> nat) \<times> nat \<times> nat \<times> nat \<Rightarrow> bool" where
  "row_done x i st =
     (case st of (new, besti, bestj, bestsize) \<Rightarrow>
        new i = Some (run x i) \<and> run x i \<le> bestsize)"

definition diag_inv :: "string \<Rightarrow> nat \<Rightarrow> (nat \<rightharpoonup> nat) \<times> nat \<times> nat \<times> nat \<Rightarrow> bool" where
  "diag_inv x i st =
     (case st of (j2len, besti, bestj, bestsize) \<Rightarrow>
        besti = bestj \<and>
        (\<forall>j v. j2len j = Some v \<longrightarrow> v \<le> run x j \<and> 0 < i \<and> v \<le> run x (i - 1)) \<and>
        (0 < i \<longrightarrow> (case j2len (i - 1) of None \<Rightarrow> 0 | Some v \<Rightarrow> v) = run x (i - 1)) \<and>
        (\<forall>i' < i. run x i' \<le> bestsize))"

lemma inner_loop_diag:
  fixes x :: string and prev :: "nat \<rightharpoonup> nat"
  assumes prev: "\<forall>j v. prev j = Some v \<longrightarrow> v \<le> run x j \<and> 0 < i \<and> v \<le> run x (i - 1)"
    and diag: "0 < i \<longrightarrow> (case prev (i - 1) of None \<Rightarrow> 0 | Some v \<Rightarrow> v) = run x (i - 1)"
    and past: "\<forall>i' < i. run x i' \<le> bs0"
    and i: "\<not> popular x i"
    and js: "sorted js" "\<forall>j \<in> set js. j < n \<and> \<not> popular x j"
    and st: "row_ok x i bs0 st" "row_done x i st \<or> i \<in> set js"
  shows "row_ok x i bs0 (inner_loop i 0 n prev js st) \<and>
         row_done x i (inner_loop i 0 n prev js st)"
  using js st
proof (induction js arbitrary: st)
  case Nil
  then show ?case by simp
next
  case (Cons j js)
  obtain new bi bj bs where s: "st = (new, bi, bj, bs)"
    by (cases st) auto
  have jn: "j < n" and jp: "\<not> popular x j"
    using Cons.prems(2) by auto
  define k where "k = j2lenget prev j + 1"
  have c1: "k \<le> run x j"
  proof (cases "j = 0")
    case True
    then show ?thesis using run_step [OF jp] by (simp add: k_def j2lenget_def)
  next
    case False
    show ?thesis
    proof (cases "prev (j - 1)")
      case None
      then show ?thesis using False run_step [OF jp] by (simp add: k_def j2lenget_def)
    next
      case (Some v)
      with prev have "v \<le> run x (j - 1)" by blast
      then show ?thesis using False Some run_step [OF jp] by (simp add: k_def j2lenget_def)
    qed
  qed
  have c2: "k \<le> run x i"
  proof (cases "j = 0")
    case True
    then show ?thesis using run_step [OF i] by (simp add: k_def j2lenget_def)
  next
    case False
    show ?thesis
    proof (cases "prev (j - 1)")
      case None
      then show ?thesis using False run_step [OF i] by (simp add: k_def j2lenget_def)
    next
      case (Some v)
      with prev have "0 < i \<and> v \<le> run x (i - 1)" by blast
      then show ?thesis using False Some run_step [OF i] by (simp add: k_def j2lenget_def)
    qed
  qed
  have c3: "j = i \<Longrightarrow> k = run x i"
    using diag run_step [OF i]
    by (auto simp: k_def j2lenget_def split: option.splits)
  have ok: "bi = bj" "bs0 \<le> bs" "\<forall>j v. new j = Some v \<longrightarrow> v \<le> run x j \<and> v \<le> run x i"
    using Cons.prems(3) by (auto simp: row_ok_def s)
  have tail: "sorted js" "\<forall>j \<in> set js. j < n \<and> \<not> popular x j"
    using Cons.prems(1,2) by auto
  have step: "inner_loop i 0 n prev (j # js) st =
      (if bs < k then inner_loop i 0 n prev js (new(j \<mapsto> k), i + 1 - k, j + 1 - k, k)
       else inner_loop i 0 n prev js (new(j \<mapsto> k), bi, bj, bs))"
    using jn by (simp add: s k_def Let_def del: fun_upd_apply)
  have new_ok: "\<forall>j' v. (new(j \<mapsto> k)) j' = Some v \<longrightarrow> v \<le> run x j' \<and> v \<le> run x i"
    using ok(3) c1 c2 by auto
  show ?case
  proof (cases "bs < k")
    case True
    have "\<not> row_done x i st"
      using True c2 by (auto simp: row_done_def s)
    with Cons.prems(4) have "i \<in> set (j # js)" by simp
    with Cons.prems(1) have "j \<le> i" by auto
    have "j = i"
    proof (rule ccontr)
      assume "j \<noteq> i"
      with \<open>j \<le> i\<close> have "j < i" by simp
      with past have "run x j \<le> bs0" by simp
      with c1 ok(2) True show False by simp
    qed
    have a: "row_ok x i bs0 (new(j \<mapsto> k), i + 1 - k, j + 1 - k, k)"
      using new_ok ok(2) True \<open>j = i\<close> unfolding row_ok_def by (simp del: fun_upd_apply)
    have b: "row_done x i (new(j \<mapsto> k), i + 1 - k, j + 1 - k, k)"
      using c3 \<open>j = i\<close> by (simp add: row_done_def)
    from Cons.IH [OF tail a] b True show ?thesis
      unfolding step by simp
  next
    case False
    have a: "row_ok x i bs0 (new(j \<mapsto> k), bi, bj, bs)"
      using new_ok ok(1,2) unfolding row_ok_def by (simp del: fun_upd_apply)
    have b: "row_done x i (new(j \<mapsto> k), bi, bj, bs) \<or> i \<in> set js"
    proof (cases "j = i")
      case True
      with c3 False show ?thesis by (simp add: row_done_def)
    next
      case ji: False
      with Cons.prems(4) show ?thesis by (auto simp: row_done_def s)
    qed
    from Cons.IH [OF tail a b] False show ?thesis
      unfolding step by simp
  qed
qed

lemma row_diag:
  assumes "diag_inv x i (j2len, bi, bj, bs)" and "i < length x"
  shows "diag_inv x (Suc i)
           (inner_loop i 0 (length x) j2len (b2j x (x ! i)) (Map.empty, bi, bj, bs))"
proof (cases "popular x i")
  case True
  then have "b2j x (x ! i) = []" by (simp add: popular_def)
  with assms(1) True show ?thesis
    by (auto simp: diag_inv_def run_popular less_Suc_eq)
next
  case False
  let ?st = "inner_loop i 0 (length x) j2len (b2j x (x ! i)) (Map.empty, bi, bj, bs)"
  have prev: "\<forall>j v. j2len j = Some v \<longrightarrow> v \<le> run x j \<and> 0 < i \<and> v \<le> run x (i - 1)"
    and diag: "0 < i \<longrightarrow> (case j2len (i - 1) of None \<Rightarrow> 0 | Some v \<Rightarrow> v) = run x (i - 1)"
    and past: "\<forall>i' < i. run x i' \<le> bs"
    and eq: "bi = bj"
    using assms(1) by (auto simp: diag_inv_def)
  have a: "row_ok x i bs (Map.empty, bi, bj, bs)"
    using eq by (simp add: row_ok_def)
  have b: "row_done x i (Map.empty, bi, bj, bs) \<or> i \<in> set (b2j x (x ! i))"
    using b2j_positions(1) [OF assms(2) False] by simp
  from inner_loop_diag [OF prev diag past False b2j_positions(2,3) [OF assms(2) False] a b]
  have r: "row_ok x i bs ?st" "row_done x i ?st" by auto
  obtain new bi' bj' bs' where s: "?st = (new, bi', bj', bs')"
    by (cases ?st) auto
  from r past show ?thesis
    unfolding s by (auto simp: diag_inv_def row_ok_def row_done_def less_Suc_eq)
qed

lemma outer_loop_diag:
  assumes "diag_inv x i st" and "i + m \<le> length x"
  shows "diag_inv x (i + m) (outer_loop x x 0 (length x) [i..<i + m] st)"
  using assms
proof (induction m arbitrary: i st)
  case 0
  then show ?case by simp
next
  case (Suc m)
  obtain j2len bi bj bs where s: "st = (j2len, bi, bj, bs)"
    by (cases st) auto
  have "i < length x" using Suc.prems(2) by simp
  from row_diag [OF Suc.prems(1) [unfolded s] this]
  have d: "diag_inv x (Suc i)
      (inner_loop i 0 (length x) j2len (b2j x (x ! i)) (Map.empty, bi, bj, bs))" .
  have "[i..<i + Suc m] = i # [Suc i..<Suc i + m]"
    by (simp add: upt_rec)
  with Suc.IH [OF d] Suc.prems(2) show ?case
    by (simp add: s)
qed

lemma extend_back_diag: "extend_back x x 0 0 False (i, i, s) = (0, 0, s + i)"
proof (induction i arbitrary: s)
  case 0
  show ?case by (subst extend_back.simps) simp
next
  case (Suc i)
  have "extend_back x x 0 0 False (Suc i, Suc i, s) = extend_back x x 0 0 False (i, i, s + 1)"
    by (subst extend_back.simps) (simp add: isbjunk_def)
  with Suc [of "s + 1"] show ?case by simp
qed

lemma extend_fwd_diag: "s \<le> n \<Longrightarrow> extend_fwd x x n n False (0, 0, s) = (0, 0, n)"
proof (induction "n - s" arbitrary: s)
  case 0
  then have "s = n" by simp
  then show ?case by (subst extend_fwd.simps) simp
next
  case (Suc d)
  then have "s < n" and "d = n - (s + 1)" and "s + 1 \<le> n" by auto
  have "extend_fwd x x n n False (0, 0, s) = extend_fwd x x n n False (0, 0, s + 1)"
    using \<open>s < n\<close> by (subst extend_fwd.simps) (simp add: isbjunk_def)
  with Suc.hyps(1) [OF \<open>d = n - (s + 1)\<close> \<open>s + 1 \<le> n\<close>] show ?case by simp
qed

lemma extend_back_junk: "extend_back a b alo blo True st = st"
  by (cases st) (simp add: extend_back.simps isbjunk_def)

lemma extend_fwd_junk: "extend_fwd a b ahi bhi True st = st"
  by (cases st) (simp add: extend_fwd.simps isbjunk_def)

lemma find_longest_match_identical:
  "find_longest_match x x 0 (length x) 0 (length x) = (0, 0, length x)"
proof -
  let ?n = "length x"
  let ?r = "outer_loop x x 0 ?n [0..<?n] (Map.empty, 0, 0, 0)"
  obtain j2len bi bj bs where r: "?r = (j2len, bi, bj, bs)"
    by (cases ?r) auto
  have "diag_inv x 0 (Map.empty, 0, 0, 0)"
    by (simp add: diag_inv_def)
  from outer_loop_diag [OF this, of ?n] have "diag_inv x ?n ?r" by simp
  then have eq: "bi = bj" by (simp add: r diag_inv_def)
  have "j2len_ok 0 ?n (0 - 0) Map.empty" and "best_ok 0 ?n 0 ?n (0, 0, 0)"
    by (simp_all add: j2len_ok_def best_ok_def)
  from outer_loop_inv [OF this(1) _ _ this(2), of ?n x x]
  have "best_ok 0 ?n 0 ?n (snd ?r)" by simp
  then have le: "bs + bi \<le> ?n"
    by (auto simp: r best_ok_def split: if_splits)
  have "extend_fwd x x ?n ?n False (extend_back x x 0 0 False (bi, bj, bs)) = (0, 0, ?n)"
    unfolding eq extend_back_diag using le eq by (simp add: extend_fwd_diag)
  then show ?thesis
    by (simp add: find_longest_match_def r extend_back_junk extend_fwd_junk)
qed

lemma ratio_identical:
  assumes "x \<noteq> []"
  shows "ratio x x = 1"
proof -
  have "blocks_loop x x [(0, length x, 0, length x)] [] = blocks_loop x x [] [(0, 0, length x)]"
    using assms by (subst blocks_loop.simps) (simp add: find_longest_match_identical)
  then have "blocks_loop x x [(0, length x, 0, length x)] [] = [(0, 0, length x)]"
    by (simp add: blocks_loop.simps)
  then have "size_sum (get_matching_blocks x x) = length x"
    by (simp add: matches_blocks_loop)
  then show ?thesis
    using assms by (simp add: ratio_def calculate_ratio_def Let_def size_sum_def)
qed

text \<open>
  Claim C3, as stated, fails: the similarity is not symmetric.  \<open>sim("tide", "diet")\<close>
  is 0.25 and \<open>sim("diet", "tide")\<close> is 0.5: the longest block found first depends on
  which string is scanned against the other.
\<close>

theorem sim_not_symmetric_counterexample:
  "sim (Some ''tide'') (Some ''diet'') = 1 / 4 \<and> sim (Some ''diet'') (Some ''tide'') = 1 / 2"
  by code_simp

text \<open>
  Claim C3, amended.  For all inputs \<open>a\<close> and \<open>b\<close>, \<open>sim\<close> returns 0 when either input is
  empty after trimming (or is \<open>None\<close>), returns 1 for two identical inputs that are not
  empty after trimming, and its result always lies between 0 and 1.
\<close>

theorem sim_zero_one_range:
  "(strip (or_else a '''') = [] \<or> strip (or_else b '''') = [] \<longrightarrow> sim a b = 0) \<and>
   (strip (or_else a '''') \<noteq> [] \<longrightarrow> sim a a = 1) \<and>
   0 \<le> sim a b \<and> sim a b \<le> 1"
proof -
  have z: "sim a b = 0" if "strip (or_else a '''') = [] \<or> strip (or_else b '''') = []"
    using that by (auto simp: sim_def Let_def lower_def)
  have o: "sim a a = 1" if "strip (or_else a '''') \<noteq> []"
    using that ratio_identical [of "lower (strip (or_else a ''''))"]
    by (simp add: sim_def Let_def lower_def)
  have "0 \<le> sim a b \<and> sim a b \<le> 1"
    using ratio_range [of "lower (strip (or_else a ''''))" "lower (strip (or_else b ''''))"]
    by (simp add: sim_def Let_def)
  with z o show ?thesis by blast
qed

theorem sim_zero_one_range_witness:
  "sim (Some ''   '') (Some ''Jane Doe'') = 0 \<and> sim (Some ''Jane Doe'') (Some ''Jane Doe'') = 1 \<and>
   0 \<le> sim (Some ''tide'') (Some ''diet'') \<and> sim (Some ''tide'') (Some ''diet'') \<le> 1"
proof -
  have e: "strip (or_else (Some ''   '') '''') = []"
    and n: "strip (or_else (Some ''Jane Doe'') '''') \<noteq> []"
    by code_simp+
  from sim_zero_one_range [of "Some ''   ''" "Some ''Jane Doe''"] e
       sim_zero_one_range [of "Some ''Jane Doe''" "Some ''Jane Doe''"] n
       sim_zero_one_range [of "Some ''tide''" "Some ''diet''"]
  show ?thesis by simp
qed

end
